theory Spec2Isabelle
  imports Complex_Main "HOL-Library.Word"
begin

unbundle bit_operations_syntax

section \<open>JavaScript strings and numbers\<close>

text \<open>
  A JavaScript string is a sequence of 16-bit code units and \<open>s.length\<close> counts them.
  Numbers that the engine only counts with (object ids, lengths, offsets) are naturals;
  coordinates and sizes are the reals that the engine's doubles denote. The text of a
  number in a template literal, \<open>String.prototype.toLowerCase\<close>, \<open>atob\<close> and the outcome
  of the image promise come from the host and are parameters of the model (record
  \<open>host\<close>).
\<close>

type_synonym jsstring = "16 word list"

definition js :: "string \<Rightarrow> jsstring" where
  "js s = map (\<lambda>c. of_nat (of_char c)) s"

definition digitChar :: "nat \<Rightarrow> 16 word" where
  "digitChar d = of_nat (48 + d)"

fun showNat :: "nat \<Rightarrow> jsstring" where
  "showNat n = (if n < 10 then [digitChar n] else showNat (n div 10) @ [digitChar (n mod 10)])"

declare showNat.simps [simp del]

definition isDigit :: "16 word \<Rightarrow> bool" where
  "isDigit c = (0x30 \<le> c \<and> c \<le> 0x39)"

text \<open>\<open>parseInt(s)\<close> on the strings the serializer gives it: the longest prefix of decimal
  digits, \<open>NaN\<close> (here \<open>None\<close>) when there is none.\<close>

definition parseInt :: "jsstring \<Rightarrow> nat option" where
  "parseInt s = (let ds = takeWhile isDigit s in
     if ds = [] then None else Some (foldl (\<lambda>a c. 10 * a + (unat c - 48)) 0 ds))"

definition padStart :: "nat \<Rightarrow> 16 word \<Rightarrow> jsstring \<Rightarrow> jsstring" where
  "padStart n c s = replicate (n - length s) c @ s"

definition join :: "jsstring \<Rightarrow> jsstring list \<Rightarrow> jsstring" where
  "join sep xs = (case xs of [] \<Rightarrow> [] | y # ys \<Rightarrow> y @ concat (map (\<lambda>z. sep @ z) ys))"

definition startsWith :: "jsstring \<Rightarrow> jsstring \<Rightarrow> bool" where
  "startsWith s p = (take (length p) s = p)"

definition endsWith :: "jsstring \<Rightarrow> jsstring \<Rightarrow> bool" where
  "endsWith s p = (length p \<le> length s \<and> drop (length s - length p) s = p)"

text \<open>\<open>Array.prototype.indexOf\<close>: the first position, or -1.\<close>

fun indexOf :: "'a list \<Rightarrow> 'a \<Rightarrow> int" where
  "indexOf [] x = -1"
| "indexOf (y # ys) x = (if y = x then 0 else (let i = indexOf ys x in if i < 0 then -1 else i + 1))"

text \<open>Reading an array at a number: \<open>undefined\<close> outside the array.\<close>

definition arrayAt :: "'a list \<Rightarrow> int \<Rightarrow> 'a option" where
  "arrayAt xs i = (if 0 \<le> i \<and> i < int (length xs) then Some (xs ! nat i) else None)"

datatype error = TypeError | InvalidCharacterError | ImageRejected

subsection \<open>Arithmetic on doubles\<close>

text \<open>
  A sum, difference, product or quotient of two doubles is the exact result rounded to
  the nearest double, ties to the even significand (IEEE 754, binary64), and a decimal
  literal of the source is the double nearest to it. \<open>double x\<close> is that rounding: the
  doubles \<open>d\<close> with \<open>2^k \<le> \<bar>d\<bar> < 2^(k+1)\<close> are the multiples of \<open>2^(k-52)\<close>, and
  those below \<open>2^(-1022)\<close> the multiples of \<open>2^(-1074)\<close>. \<open>NaN\<close>, the infinities and
  results beyond the largest double are outside the model. The quotients of \<open>hexToRgb\<close>
  are kept exact: they are only printed, and what the host prints for a number is a
  parameter.
\<close>

definition pow2 :: "int \<Rightarrow> real" where
  "pow2 k = (if 0 \<le> k then 2 ^ nat k else 1 / 2 ^ nat (- k))"

definition binade :: "real \<Rightarrow> int" where
  "binade x = \<lfloor>log 2 \<bar>x\<bar>\<rfloor>"

definition roundEven :: "real \<Rightarrow> int" where
  "roundEven q = (let f = \<lfloor>q\<rfloor>; d = q - of_int f
     in if d < 1 / 2 then f else if 1 / 2 < d then f + 1 else if even f then f else f + 1)"

definition double :: "real \<Rightarrow> real" where
  "double x = (if x = 0 then 0
     else (let u = pow2 (max (binade x) (- 1022) - 52) in of_int (roundEven (x / u)) * u))"

record host =
  numToString :: "real \<Rightarrow> jsstring"
  toLowerCase :: "jsstring \<Rightarrow> jsstring"
  processImage :: "jsstring \<Rightarrow> error + jsstring"
  atob :: "jsstring \<Rightarrow> jsstring option"

section \<open>Colours: hexToRgb\<close>

record rgb =
  rgb_r :: real
  rgb_g :: real
  rgb_b :: real

text \<open>The character class \<open>[a-f\d]\<close> under the flag \<open>i\<close>.\<close>

definition isHexDigit :: "16 word \<Rightarrow> bool" where
  "isHexDigit c = ((0x30 \<le> c \<and> c \<le> 0x39) \<or> (0x61 \<le> c \<and> c \<le> 0x66) \<or> (0x41 \<le> c \<and> c \<le> 0x46))"

definition hexVal :: "16 word \<Rightarrow> nat" where
  "hexVal c = (if c \<le> 0x39 then unat c - 0x30 else if c \<le> 0x46 then unat c - 0x41 + 10 else unat c - 0x61 + 10)"

text \<open>\<open>parseInt(s, 16)\<close> on a string of hexadecimal digits.\<close>

definition parseHex :: "jsstring \<Rightarrow> nat" where
  "parseHex s = foldl (\<lambda>a c. 16 * a + hexVal c) 0 s"

text \<open>The match of \<open>/^#?([a-f\d]{2})([a-f\d]{2})([a-f\d]{2})$/i\<close>: its three groups.\<close>

definition hexExec :: "jsstring \<Rightarrow> (jsstring \<times> jsstring \<times> jsstring) option" where
  "hexExec hex = (let body = (if startsWith hex (js ''#'') then drop 1 hex else hex) in
     if length body = 6 \<and> list_all isHexDigit body
     then Some (take 2 body, take 2 (drop 2 body), drop 4 body) else None)"

definition hexToRgb :: "jsstring \<Rightarrow> rgb" where
  "hexToRgb hex = (case hexExec hex of
       Some (r1, r2, r3) \<Rightarrow>
         \<lparr>rgb_r = real (parseHex r1) / 255, rgb_g = real (parseHex r2) / 255,
           rgb_b = real (parseHex r3) / 255\<rparr>
     | None \<Rightarrow> \<lparr>rgb_r = 0, rgb_g = 0, rgb_b = 0\<rparr>)"

text \<open>The claim's pattern, in its own words: a \<open>#\<close> followed by exactly six hexadecimal
  digits.\<close>

definition matchesHashRRGGBB :: "jsstring \<Rightarrow> bool" where
  "matchesHashRRGGBB hex = (length hex = 7 \<and> hd hex = 0x23 \<and> list_all isHexDigit (tl hex))"

text \<open>What the expression accepts: six hexadecimal digits, with or without the \<open>#\<close>.\<close>

definition matchesOptHashRRGGBB :: "jsstring \<Rightarrow> bool" where
  "matchesOptHashRRGGBB hex = (matchesHashRRGGBB hex \<or> (length hex = 6 \<and> list_all isHexDigit hex))"

text \<open>The six digits of a colour that the expression accepts.\<close>

definition hexBody :: "jsstring \<Rightarrow> jsstring" where
  "hexBody hex = (if length hex = 7 then tl hex else hex)"

text \<open>The value of channel \<open>i\<close> of the six digits: the two-digit component over 255.\<close>

definition channel :: "jsstring \<Rightarrow> nat \<Rightarrow> real" where
  "channel body i = real (16 * hexVal (body ! (2 * i)) + hexVal (body ! (2 * i + 1))) / 255"

section \<open>The document\<close>

datatype align = AlignLeft | AlignCenter | AlignRight

datatype style = Normal | Bold | Italic | BoldItalic

definition styleName :: "style \<Rightarrow> jsstring" where
  "styleName st = (case st of Normal \<Rightarrow> js ''normal'' | Bold \<Rightarrow> js ''bold''
     | Italic \<Rightarrow> js ''italic'' | BoldItalic \<Rightarrow> js ''bolditalic'')"

text \<open>An optional field of an options object is an \<open>option\<close>: \<open>None\<close> is \<open>undefined\<close>.\<close>

record TextOptions =
  to_size :: "real option"
  to_font :: "jsstring option"
  to_style :: "style option"
  to_color :: "jsstring option"
  to_align :: "align option"

record ImageOptions =
  io_width :: real
  io_height :: real

record DefaultHeaderConfig =
  dh_text :: "jsstring option"
  dh_align :: "align option"
  dh_color :: "jsstring option"

record DefaultFooterConfig =
  df_text :: "jsstring option"
  df_showPageNumbers :: "bool option"
  df_align :: "align option"
  df_color :: "jsstring option"

text \<open>
  A header or footer callback receives the document and the page number. The fields
  \<open>onHeader\<close> and \<open>onFooter\<close> of the configuration record hold the callbacks that do
  nothing to the document but place text and images on it: such a callback is the list of
  the placements it makes for the page. A callback that also adds pages, asks for the
  output or throws is a \<open>script\<close> (section \<open>Callbacks that call the document\<close>), given
  beside the configuration.
\<close>

datatype placement =
    PlaceText jsstring real real TextOptions
  | PlaceImage jsstring real real ImageOptions

record PdfConfig =
  cfg_headerHeight :: "real option"
  cfg_footerHeight :: "real option"
  onHeader :: "(nat \<Rightarrow> placement list) option"
  onFooter :: "(nat \<Rightarrow> placement list) option"
  defaultHeader :: "DefaultHeaderConfig option"
  defaultFooter :: "DefaultFooterConfig option"

record Page =
  page_id :: nat
  contentId :: nat
  content :: "jsstring list"
  res_fonts :: "jsstring list"
  res_images :: "jsstring list"

record Image =
  img_id :: nat
  img_width :: real
  img_height :: real
  img_data :: jsstring

text \<open>
  The fields of \<open>PdfCreator\<close> that its methods read or write (\<open>objects\<close> and
  \<open>fonts\<close> are declared and never used; the canvas belongs to the host). A \<open>Set\<close> and a \<open>Map\<close>
  iterate in insertion order: a set is a list without repetition, the image map a list of
  key and value.
\<close>

record PdfCreator =
  config :: PdfConfig
  pages :: "Page list"
  currentPageIndex :: int
  objectCounter :: nat
  images :: "(jsstring \<times> Image) list"
  headerHeight :: real
  footerHeight :: real
  isApplyingHeaderFooter :: bool

definition PAGE_WIDTH :: real where "PAGE_WIDTH = double 595.28"
definition PAGE_HEIGHT :: real where "PAGE_HEIGHT = double 841.89"
definition MAX_HEADER_HEIGHT :: real where "MAX_HEADER_HEIGHT = 200"
definition MAX_FOOTER_HEIGHT :: real where "MAX_FOOTER_HEIGHT = 200"

definition standardFonts :: "(jsstring \<times> jsstring) list" where
  "standardFonts =
    [(js ''helvetica'', js ''Helvetica''),
     (js ''helvetica-bold'', js ''Helvetica-Bold''),
     (js ''helvetica-italic'', js ''Helvetica-Oblique''),
     (js ''helvetica-bolditalic'', js ''Helvetica-BoldOblique''),
     (js ''times'', js ''Times-Roman''),
     (js ''times-bold'', js ''Times-Bold''),
     (js ''times-italic'', js ''Times-Italic''),
     (js ''times-bolditalic'', js ''Times-BoldItalic''),
     (js ''courier'', js ''Courier''),
     (js ''courier-bold'', js ''Courier-Bold''),
     (js ''courier-italic'', js ''Courier-Oblique''),
     (js ''courier-bolditalic'', js ''Courier-BoldOblique'')]"

text \<open>\<open>Set.prototype.add\<close>.\<close>

definition setAdd :: "'a \<Rightarrow> 'a list \<Rightarrow> 'a list" where
  "setAdd x xs = (if x \<in> set xs then xs else xs @ [x])"

definition getNextId :: "PdfCreator \<Rightarrow> nat \<times> PdfCreator" where
  "getNextId s = (objectCounter s, s\<lparr>objectCounter := objectCounter s + 1\<rparr>)"

definition addPage :: "PdfCreator \<Rightarrow> PdfCreator" where
  "addPage s =
    (let (pageId, s1) = getNextId s;
         (cId, s2) = getNextId s1;
         s3 = s2\<lparr>pages := pages s2 @
                [\<lparr>page_id = pageId, contentId = cId, content = [], res_fonts = [], res_images = []\<rparr>]\<rparr>
     in s3\<lparr>currentPageIndex := int (length (pages s3)) - 1\<rparr>)"

text \<open>The state of the field initialisers, then the constructor's body.\<close>

definition initial :: "PdfConfig \<Rightarrow> PdfCreator" where
  "initial cfg = \<lparr>config = cfg, pages = [], currentPageIndex = -1, objectCounter = 1, images = [],
     headerHeight = 0, footerHeight = 0, isApplyingHeaderFooter = False\<rparr>"

text \<open>\<open>config.headerHeight || 0\<close>: an absent height is 0.\<close>

definition orZero :: "real option \<Rightarrow> real" where
  "orZero v = (case v of None \<Rightarrow> 0 | Some h \<Rightarrow> h)"

definition constructor :: "PdfConfig \<Rightarrow> PdfCreator" where
  "constructor cfg =
    addPage ((initial cfg)\<lparr>headerHeight := min (orZero (cfg_headerHeight cfg)) MAX_HEADER_HEIGHT,
                           footerHeight := min (orZero (cfg_footerHeight cfg)) MAX_FOOTER_HEIGHT\<rparr>)"

definition setPage :: "int \<Rightarrow> PdfCreator \<Rightarrow> PdfCreator" where
  "setPage index s =
    (if index \<ge> 0 \<and> index < int (length (pages s)) then s\<lparr>currentPageIndex := index\<rparr> else s)"

definition replaceChar :: "16 word \<Rightarrow> jsstring \<Rightarrow> jsstring \<Rightarrow> jsstring" where
  "replaceChar c rep s = concat (map (\<lambda>d. if d = c then rep else [d]) s)"

definition escapeText :: "jsstring \<Rightarrow> jsstring" where
  "escapeText text =
     replaceChar 0x29 (js [CHR 0x5C, CHR '')''])
       (replaceChar 0x28 (js [CHR 0x5C, CHR ''(''])
          (replaceChar 0x5C (js [CHR 0x5C, CHR 0x5C]) text))"

section \<open>Placing text and images\<close>

definition nl :: jsstring where
  "nl = [0x0A]"

text \<open>The key \<open>`${font.toLowerCase()}-${style.toLowerCase()}`.replace(/-normal$/, '')\<close>.\<close>

definition fontKeyOf :: "host \<Rightarrow> jsstring \<Rightarrow> style \<Rightarrow> jsstring" where
  "fontKeyOf h fnt st =
    (let k = toLowerCase h fnt @ js ''-'' @ toLowerCase h (styleName st)
     in if endsWith k (js ''-normal'') then take (length k - 7) k else k)"

text \<open>\<open>this.standardFonts[fontKey] || 'Helvetica'\<close>, over the table's own keys.\<close>

definition pdfFontNameOf :: "jsstring \<Rightarrow> jsstring" where
  "pdfFontNameOf fontKey = (case map_of standardFonts fontKey of Some n \<Rightarrow> n | None \<Rightarrow> js ''Helvetica'')"

definition fontResourceNameOf :: "jsstring \<Rightarrow> jsstring" where
  "fontResourceNameOf fontKey = js ''F'' @ showNat (nat (indexOf (map fst standardFonts) fontKey + 1))"

definition sizeOf :: "TextOptions \<Rightarrow> real" where
  "sizeOf opts = (case to_size opts of None \<Rightarrow> 12 | Some v \<Rightarrow> v)"

definition fontOf :: "TextOptions \<Rightarrow> jsstring" where
  "fontOf opts = (case to_font opts of None \<Rightarrow> js ''helvetica'' | Some v \<Rightarrow> v)"

definition styleOf :: "TextOptions \<Rightarrow> style" where
  "styleOf opts = (case to_style opts of None \<Rightarrow> Normal | Some v \<Rightarrow> v)"

definition colorOf :: "TextOptions \<Rightarrow> jsstring" where
  "colorOf opts = (case to_color opts of None \<Rightarrow> js ''#000000'' | Some v \<Rightarrow> v)"

definition alignOf :: "TextOptions \<Rightarrow> align" where
  "alignOf opts = (case to_align opts of None \<Rightarrow> AlignLeft | Some v \<Rightarrow> v)"

text \<open>The content-stream fragment that \<open>addText\<close> builds for the text at height \<open>y\<close>.\<close>

definition textContent :: "host \<Rightarrow> jsstring \<Rightarrow> real \<Rightarrow> real \<Rightarrow> TextOptions \<Rightarrow> jsstring" where
  "textContent h text x y opts =
    (let pdfY = double (PAGE_HEIGHT - y);
         fontResourceName = fontResourceNameOf (fontKeyOf h (fontOf opts) (styleOf opts));
         rgb = hexToRgb (colorOf opts);
         xOffset = (if alignOf opts = AlignCenter
                    then double (x - double (double (real (length text) * sizeOf opts) * double 0.3))
                    else if alignOf opts = AlignRight
                    then double (x - double (double (real (length text) * sizeOf opts) * double 0.6))
                    else x)
     in js ''BT'' @ nl
        @ js ''/'' @ fontResourceName @ js '' '' @ numToString h (sizeOf opts) @ js '' Tf'' @ nl
        @ numToString h (rgb_r rgb) @ js '' '' @ numToString h (rgb_g rgb) @ js '' ''
          @ numToString h (rgb_b rgb) @ js '' rg'' @ nl
        @ numToString h xOffset @ js '' '' @ numToString h pdfY @ js '' Td'' @ nl
        @ js ''('' @ escapeText text @ js '') Tj'' @ nl
        @ js ''ET'' @ nl)"

text \<open>
  \<open>addText\<close> returns the document after the call and the call's outcome: the applied
  \<open>y\<close>, or the \<open>TypeError\<close> of reading \<open>resources\<close> of an undefined current page.
\<close>

definition addText ::
  "host \<Rightarrow> jsstring \<Rightarrow> real \<Rightarrow> real \<Rightarrow> TextOptions \<Rightarrow> PdfCreator \<Rightarrow> PdfCreator \<times> (error + real)" where
  "addText h text x y opts s =
    (let footerStart = double (PAGE_HEIGHT - footerHeight s);
         (s1, y1) = (if \<not> isApplyingHeaderFooter s \<and> double (y + sizeOf opts) > footerStart
                     then (addPage s, double (headerHeight s + 20)) else (s, y));
         fontResourceName = fontResourceNameOf (fontKeyOf h (fontOf opts) (styleOf opts))
     in case arrayAt (pages s1) (currentPageIndex s1) of
          None \<Rightarrow> (s1, Inl TypeError)
        | Some currentPage \<Rightarrow>
            (s1\<lparr>pages := (pages s1)[nat (currentPageIndex s1) :=
                   currentPage\<lparr>res_fonts := setAdd fontResourceName (res_fonts currentPage),
                               content := content currentPage @ [textContent h text x y1 opts]\<rparr>]\<rparr>,
             Inr y1))"

text \<open>\<open>addImage\<close> up to its \<open>await\<close>: the overflow check.\<close>

definition addImageBegin :: "real \<Rightarrow> ImageOptions \<Rightarrow> PdfCreator \<Rightarrow> PdfCreator \<times> real" where
  "addImageBegin y opts s =
    (let footerStart = double (PAGE_HEIGHT - footerHeight s)
     in if \<not> isApplyingHeaderFooter s \<and> double (y + io_height opts) > footerStart
        then (addPage s, double (headerHeight s + 20)) else (s, y))"

definition isWordChar :: "16 word \<Rightarrow> bool" where
  "isWordChar c = ((0x30 \<le> c \<and> c \<le> 0x39) \<or> (0x61 \<le> c \<and> c \<le> 0x7A) \<or> (0x41 \<le> c \<and> c \<le> 0x5A) \<or> c = 0x5F)"

text \<open>\<open>processedData.replace(/^data:image\/\w+;base64,/, "")\<close>.\<close>

definition stripDataPrefix :: "jsstring \<Rightarrow> jsstring" where
  "stripDataPrefix d =
    (if startsWith d (js ''data:image/'') then
       (let rest = drop 11 d; w = takeWhile isWordChar rest; rest2 = drop (length w) rest
        in if w \<noteq> [] \<and> startsWith rest2 (js '';base64,'') then drop 8 rest2 else d)
     else d)"

definition imageContent :: "host \<Rightarrow> jsstring \<Rightarrow> real \<Rightarrow> real \<Rightarrow> ImageOptions \<Rightarrow> jsstring" where
  "imageContent h imageKey x y opts =
    (let pdfY = double (double (PAGE_HEIGHT - y) - io_height opts)
     in js ''q '' @ numToString h (io_width opts) @ js '' 0 0 '' @ numToString h (io_height opts)
        @ js '' '' @ numToString h x @ js '' '' @ numToString h pdfY @ js '' cm /'' @ imageKey
        @ js '' Do Q'' @ nl)"

text \<open>\<open>addImage\<close> after the promise of \<open>processImage\<close> is fulfilled with \<open>processedData\<close>.\<close>

definition addImageCommit ::
  "host \<Rightarrow> jsstring \<Rightarrow> real \<Rightarrow> real \<Rightarrow> ImageOptions \<Rightarrow> PdfCreator \<Rightarrow> PdfCreator \<times> (error + real)" where
  "addImageCommit h processedData x y opts s =
    (let base64Data = stripDataPrefix processedData;
         imageKey = js ''I'' @ showNat (length (images s) + 1);
         s1 = (if map_of (images s) imageKey = None
               then (let (newId, s') = getNextId s
                     in s'\<lparr>images := images s' @
                          [(imageKey, \<lparr>img_id = newId, img_width = io_width opts,
                                       img_height = io_height opts, img_data = base64Data\<rparr>)]\<rparr>)
               else s)
     in case arrayAt (pages s1) (currentPageIndex s1) of
          None \<Rightarrow> (s1, Inl TypeError)
        | Some currentPage \<Rightarrow>
            (s1\<lparr>pages := (pages s1)[nat (currentPageIndex s1) :=
                   currentPage\<lparr>res_images := setAdd imageKey (res_images currentPage),
                               content := content currentPage @ [imageContent h imageKey x y opts]\<rparr>]\<rparr>,
             Inr y))"

text \<open>The whole call, awaited: a rejected promise of \<open>processImage\<close> rejects the call.\<close>

definition addImage ::
  "host \<Rightarrow> jsstring \<Rightarrow> real \<Rightarrow> real \<Rightarrow> ImageOptions \<Rightarrow> PdfCreator \<Rightarrow> PdfCreator \<times> (error + real)" where
  "addImage h imageData x y opts s =
    (let (s1, y1) = addImageBegin y opts s
     in case processImage h imageData of
          Inl e \<Rightarrow> (s1, Inl e)
        | Inr processedData \<Rightarrow> addImageCommit h processedData x y1 opts s1)"

text \<open>A client's calls on the document, each awaited, its outcome left to the caller.\<close>

datatype command =
    AddText jsstring real real TextOptions
  | AddImage jsstring real real ImageOptions
  | AddPage

definition runCommand :: "host \<Rightarrow> command \<Rightarrow> PdfCreator \<Rightarrow> PdfCreator" where
  "runCommand h c s = (case c of
       AddText text x y opts \<Rightarrow> fst (addText h text x y opts s)
     | AddImage imageData x y opts \<Rightarrow> fst (addImage h imageData x y opts s)
     | AddPage \<Rightarrow> addPage s)"

definition runCommands :: "host \<Rightarrow> command list \<Rightarrow> PdfCreator \<Rightarrow> PdfCreator" where
  "runCommands h cs s = foldl (\<lambda>s' c. runCommand h c s') s cs"

section \<open>The header and footer pass\<close>

definition alignX :: "align \<Rightarrow> real" where
  "alignX a = (case a of AlignLeft \<Rightarrow> 20 | AlignCenter \<Rightarrow> double (PAGE_WIDTH / 2)
     | AlignRight \<Rightarrow> double (PAGE_WIDTH - 20))"

definition hfOptions :: "align \<Rightarrow> jsstring \<Rightarrow> TextOptions" where
  "hfOptions a c = \<lparr>to_size = Some 10, to_font = None, to_style = None, to_color = Some c, to_align = Some a\<rparr>"

text \<open>A void call: the document after it and the exception it threw, if any.\<close>

definition thrown :: "'s \<times> (error + 'a) \<Rightarrow> 's \<times> error option" where
  "thrown res = (case res of (s, Inl e) \<Rightarrow> (s, Some e) | (s, Inr v) \<Rightarrow> (s, None))"

text \<open>
  The placements of a callback, in order. \<open>addText\<close> is synchronous; of \<open>addImage\<close> the part
  before its \<open>await\<close> runs inside the callback, and the promise is not awaited there.
\<close>

fun runPlacements :: "host \<Rightarrow> placement list \<Rightarrow> PdfCreator \<Rightarrow> PdfCreator \<times> error option" where
  "runPlacements h [] s = (s, None)"
| "runPlacements h (PlaceText text x y opts # ps) s =
     (case addText h text x y opts s of
        (s', Inl e) \<Rightarrow> (s', Some e)
      | (s', Inr v) \<Rightarrow> runPlacements h ps s')"
| "runPlacements h (PlaceImage imageData x y opts # ps) s =
     runPlacements h ps (fst (addImageBegin y opts s))"

definition applyHeader :: "host \<Rightarrow> nat \<Rightarrow> PdfCreator \<Rightarrow> PdfCreator \<times> error option" where
  "applyHeader h pageNum s =
    (case onHeader (config s) of
       Some cb \<Rightarrow> runPlacements h (cb pageNum) s
     | None \<Rightarrow>
        (case defaultHeader (config s) of
           None \<Rightarrow> (s, None)
         | Some d \<Rightarrow>
            (let text = (case dh_text d of None \<Rightarrow> [] | Some v \<Rightarrow> v);
                 a = (case dh_align d of None \<Rightarrow> AlignCenter | Some v \<Rightarrow> v);
                 c = (case dh_color d of None \<Rightarrow> js ''#000000'' | Some v \<Rightarrow> v)
             in if text \<noteq> [] then thrown (addText h text (alignX a) 20 (hfOptions a c) s)
                else (s, None))))"

text \<open>The text of the default footer on page \<open>pageNum\<close>.\<close>

definition footerText :: "DefaultFooterConfig \<Rightarrow> nat \<Rightarrow> jsstring" where
  "footerText d pageNum =
    (let text = (case df_text d of None \<Rightarrow> [] | Some v \<Rightarrow> v);
         showPageNumbers = (case df_showPageNumbers d of None \<Rightarrow> True | Some v \<Rightarrow> v)
     in if showPageNumbers
        then (if text \<noteq> [] then text @ js '' - Page '' @ showNat pageNum
              else js ''Page '' @ showNat pageNum)
        else text)"

definition applyFooter :: "host \<Rightarrow> nat \<Rightarrow> PdfCreator \<Rightarrow> PdfCreator \<times> error option" where
  "applyFooter h pageNum s =
    (case onFooter (config s) of
       Some cb \<Rightarrow> runPlacements h (cb pageNum) s
     | None \<Rightarrow>
        (case defaultFooter (config s) of
           None \<Rightarrow> (s, None)
         | Some d \<Rightarrow>
            (let a = (case df_align d of None \<Rightarrow> AlignCenter | Some v \<Rightarrow> v);
                 c = (case df_color d of None \<Rightarrow> js ''#000000'' | Some v \<Rightarrow> v);
                 ft = footerText d pageNum
             in if ft \<noteq> [] then thrown (addText h ft (alignX a) 820 (hfOptions a c) s)
                else (s, None))))"

text \<open>One turn of the loop of \<open>applyHeaderFooter\<close>, for the page at index \<open>i\<close>.\<close>

definition hfPage :: "host \<Rightarrow> nat \<Rightarrow> PdfCreator \<Rightarrow> PdfCreator \<times> error option" where
  "hfPage h i s =
    (let s1 = setPage (int i) s; pageNum = i + 1
     in case applyHeader h pageNum s1 of
          (s2, Some e) \<Rightarrow> (s2, Some e)
        | (s2, None) \<Rightarrow> applyFooter h pageNum s2)"

text \<open>
  The loop \<open>for (let i = 0; i < this.pages.length; i++)\<close> reads the length at every turn:
  \<open>None\<close> is a loop that never ends.
\<close>

partial_function (option) hfLoop :: "host \<Rightarrow> nat \<Rightarrow> PdfCreator \<Rightarrow> (PdfCreator \<times> error option) option" where
  "hfLoop h i s =
    (if i < length (pages s) then
       (case hfPage h i s of
          (s', Some e) \<Rightarrow> Some (s', Some e)
        | (s', None) \<Rightarrow> hfLoop h (Suc i) s')
     else Some (s, None))"

definition applyHeaderFooter :: "host \<Rightarrow> PdfCreator \<Rightarrow> (PdfCreator \<times> error option) option" where
  "applyHeaderFooter h s =
    (let s0 = s\<lparr>isApplyingHeaderFooter := True\<rparr>;
         originalPageIndex = currentPageIndex s0
     in case hfLoop h 0 s0 of
          None \<Rightarrow> None
        | Some (s1, Some e) \<Rightarrow> Some (s1, Some e)
        | Some (s1, None) \<Rightarrow>
            Some (s1\<lparr>currentPageIndex := originalPageIndex, isApplyingHeaderFooter := False\<rparr>, None))"

section \<open>The serializer\<close>

text \<open>The local state of \<open>buildPdf\<close>: the text so far, its length, and the array \<open>xref\<close>
  (an array with holes: \<open>None\<close> where nothing was stored).\<close>

record build =
  buffer :: jsstring
  currentOffset :: nat
  xref :: "nat \<Rightarrow> nat option"

definition objHeader :: "nat \<Rightarrow> jsstring" where
  "objHeader i = showNat i @ js '' 0 obj'' @ nl"

definition objFooter :: jsstring where
  "objFooter = nl @ js ''endobj'' @ nl"

definition addObject :: "nat \<Rightarrow> jsstring \<Rightarrow> build \<Rightarrow> build" where
  "addObject i c acc =
    (let fullObj = objHeader i @ c @ objFooter
     in \<lparr>buffer = buffer acc @ fullObj,
         currentOffset = currentOffset acc + length fullObj,
         xref = (xref acc)(i \<mapsto> currentOffset acc)\<rparr>)"

definition catalogContent :: "nat \<Rightarrow> jsstring" where
  "catalogContent pagesRootId = js ''<< /Type /Catalog /Pages '' @ showNat pagesRootId @ js '' 0 R >>''"

definition pagesRootContent :: "Page list \<Rightarrow> jsstring" where
  "pagesRootContent ps =
    (let pageIds = join (js '' '') (map (\<lambda>p. showNat (page_id p) @ js '' 0 R'') ps)
     in js ''<< /Type /Pages /Kids ['' @ pageIds @ js ''] /Count '' @ showNat (length ps) @ js '' >>'')"

text \<open>The font name that the serializer derives again from a resource name \<open>F<n>\<close>:
  \<open>undefined\<close> prints as the text \<open>undefined\<close>.\<close>

definition fontNameOfResource :: "jsstring \<Rightarrow> jsstring" where
  "fontNameOfResource f =
    (let fontIndex = (case parseInt (drop 1 f) of None \<Rightarrow> None | Some n \<Rightarrow> Some (int n - 1));
         fontKey = (case fontIndex of None \<Rightarrow> None | Some i \<Rightarrow> arrayAt (map fst standardFonts) i);
         fontName = (case fontKey of None \<Rightarrow> None | Some k \<Rightarrow> map_of standardFonts k)
     in case fontName of None \<Rightarrow> js ''undefined'' | Some n \<Rightarrow> n)"

definition fontEntry :: "jsstring \<Rightarrow> jsstring" where
  "fontEntry f = js ''/'' @ f @ js '' << /Type /Font /Subtype /Type1 /BaseFont /''
                 @ fontNameOfResource f @ js '' >> ''"

definition fontRes :: "jsstring list \<Rightarrow> jsstring" where
  "fontRes fonts =
    (if length fonts > 0 then js ''/Font << '' @ concat (map fontEntry fonts) @ js ''>>'' else [])"

fun xObjectEntries :: "(jsstring \<times> Image) list \<Rightarrow> jsstring list \<Rightarrow> error + jsstring" where
  "xObjectEntries imgs [] = Inr []"
| "xObjectEntries imgs (imgKey # ks) =
     (case map_of imgs imgKey of
        None \<Rightarrow> Inl TypeError
      | Some img \<Rightarrow>
         (case xObjectEntries imgs ks of
            Inl e \<Rightarrow> Inl e
          | Inr rest \<Rightarrow> Inr (js ''/'' @ imgKey @ js '' '' @ showNat (img_id img) @ js '' 0 R '' @ rest)))"

definition xObjectRes :: "(jsstring \<times> Image) list \<Rightarrow> jsstring list \<Rightarrow> error + jsstring" where
  "xObjectRes imgs keys =
    (if length keys > 0 then
       (case xObjectEntries imgs keys of
          Inl e \<Rightarrow> Inl e
        | Inr es \<Rightarrow> Inr (js ''/XObject << '' @ es @ js ''>>''))
     else Inr [])"

definition pageContent :: "nat \<Rightarrow> Page \<Rightarrow> jsstring \<Rightarrow> jsstring" where
  "pageContent pagesRootId page xo =
    (let resources = js ''<< '' @ fontRes (res_fonts page) @ js '' '' @ xo @ js '' >>''
     in js ''<< /Type /Page /Parent '' @ showNat pagesRootId
        @ js '' 0 R /MediaBox [0 0 595.28 841.89] /Contents '' @ showNat (contentId page)
        @ js '' 0 R /Resources '' @ resources @ js '' >>'')"

definition streamObject :: "Page \<Rightarrow> jsstring" where
  "streamObject page =
    (let streamContent = join nl (content page)
     in js ''<< /Length '' @ showNat (length streamContent) @ js '' >>'' @ nl @ js ''stream'' @ nl
        @ streamContent @ nl @ js ''endstream'')"

fun emitPages :: "(jsstring \<times> Image) list \<Rightarrow> nat \<Rightarrow> Page list \<Rightarrow> build \<Rightarrow> error + build" where
  "emitPages imgs pagesRootId [] acc = Inr acc"
| "emitPages imgs pagesRootId (page # ps) acc =
     (case xObjectRes imgs (res_images page) of
        Inl e \<Rightarrow> Inl e
      | Inr xo \<Rightarrow>
          emitPages imgs pagesRootId ps
            (addObject (contentId page) (streamObject page)
               (addObject (page_id page) (pageContent pagesRootId page xo) acc)))"

definition imageObject :: "host \<Rightarrow> Image \<Rightarrow> jsstring \<Rightarrow> jsstring" where
  "imageObject h img binaryString =
     js ''<< /Type /XObject /Subtype /Image /Width '' @ numToString h (img_width img)
     @ js '' /Height '' @ numToString h (img_height img)
     @ js '' /ColorSpace /DeviceRGB /BitsPerComponent 8 /Filter /DCTDecode /Length ''
     @ showNat (length binaryString) @ js '' >>'' @ nl @ js ''stream'' @ nl @ binaryString @ nl
     @ js ''endstream''"

fun emitImages :: "host \<Rightarrow> (jsstring \<times> Image) list \<Rightarrow> build \<Rightarrow> error + build" where
  "emitImages h [] acc = Inr acc"
| "emitImages h ((k, img) # rest) acc =
     (case atob h (img_data img) of
        None \<Rightarrow> Inl InvalidCharacterError
      | Some binaryString \<Rightarrow>
          emitImages h rest (addObject (img_id img) (imageObject h img binaryString) acc))"

definition xrefLine :: "nat \<Rightarrow> jsstring" where
  "xrefLine offset = padStart 10 0x30 (showNat offset) @ js '' 00000 n '' @ nl"

text \<open>The loop over \<open>i = 1 .. objectCounter - 1\<close>; \<open>toString\<close> of a hole is a \<open>TypeError\<close>.\<close>

fun xrefLines :: "(nat \<Rightarrow> nat option) \<Rightarrow> nat list \<Rightarrow> error + jsstring" where
  "xrefLines xr [] = Inr []"
| "xrefLines xr (i # is) =
     (case xr i of
        None \<Rightarrow> Inl TypeError
      | Some offset \<Rightarrow>
         (case xrefLines xr is of Inl e \<Rightarrow> Inl e | Inr rest \<Rightarrow> Inr (xrefLine offset @ rest)))"

definition xrefHead :: "nat \<Rightarrow> jsstring" where
  "xrefHead n = js ''xref'' @ nl @ js ''0 '' @ showNat n @ nl @ js ''0000000000 65535 f '' @ nl"

definition trailer :: "nat \<Rightarrow> nat \<Rightarrow> nat \<Rightarrow> jsstring" where
  "trailer n catalogId xrefOffset =
     js ''trailer'' @ nl @ js ''<< /Size '' @ showNat n @ js '' /Root '' @ showNat catalogId
     @ js '' 0 R >>'' @ nl @ js ''startxref'' @ nl @ showNat xrefOffset @ nl @ js ''%%EOF''"

text \<open>\<open>array[i] = buffer.charCodeAt(i) & 0xff\<close>, for every index of the text.\<close>

definition toBytes :: "jsstring \<Rightarrow> 8 word list" where
  "toBytes s = map (\<lambda>c. ucast (c AND 0xff)) s"

definition buffer0 :: jsstring where
  "buffer0 = js ''%PDF-1.7'' @ nl"

text \<open>Steps 2 to 6 of \<open>buildPdf\<close>, on the document after the two ids of step 3 are taken:
  every object is appended and its offset stored.\<close>

definition emitObjects :: "host \<Rightarrow> nat \<Rightarrow> nat \<Rightarrow> PdfCreator \<Rightarrow> error + build" where
  "emitObjects h catalogId pagesRootId s =
    (let acc0 = \<lparr>buffer = buffer0, currentOffset = length buffer0, xref = [0 \<mapsto> 0]\<rparr>;
         acc1 = addObject catalogId (catalogContent pagesRootId) acc0;
         acc2 = addObject pagesRootId (pagesRootContent (pages s)) acc1
     in case emitPages (images s) pagesRootId (pages s) acc2 of
          Inl e \<Rightarrow> Inl e
        | Inr acc3 \<Rightarrow> emitImages h (images s) acc3)"

text \<open>Step 3 of \<open>buildPdf\<close>: the ids of the catalog and of the page-tree root.\<close>

definition allocateRoots :: "PdfCreator \<Rightarrow> nat \<times> nat \<times> PdfCreator" where
  "allocateRoots s1 =
    (let (catalogId, s2) = getNextId s1;
         (pagesRootId, s3) = getNextId s2
     in (catalogId, pagesRootId, s3))"

text \<open>Steps 2 to 8 and the conversion to bytes, on the document after the pass.\<close>

definition serialize :: "host \<Rightarrow> PdfCreator \<Rightarrow> PdfCreator \<times> (error + 8 word list)" where
  "serialize h s1 =
    (let (catalogId, pagesRootId, s3) = allocateRoots s1
     in case emitObjects h catalogId pagesRootId s3 of
          Inl e \<Rightarrow> (s3, Inl e)
        | Inr acc \<Rightarrow>
           (let xrefOffset = currentOffset acc
            in case xrefLines (xref acc) [1..<objectCounter s3] of
                 Inl e \<Rightarrow> (s3, Inl e)
               | Inr ls \<Rightarrow>
                  (s3, Inr (toBytes (buffer acc @ xrefHead (objectCounter s3) @ ls
                                     @ trailer (objectCounter s3) catalogId xrefOffset)))))"

definition buildPdf :: "host \<Rightarrow> PdfCreator \<Rightarrow> (PdfCreator \<times> (error + 8 word list)) option" where
  "buildPdf h s =
    (case applyHeaderFooter h s of
       None \<Rightarrow> None
     | Some (s1, Some e) \<Rightarrow> Some (s1, Inl e)
     | Some (s1, None) \<Rightarrow> Some (serialize h s1))"

section \<open>Callbacks that call the document\<close>

text \<open>
  \<open>this.config.onHeader(this, pageNum)\<close> hands the document to the client's function,
  which may call \<open>addText\<close>, \<open>addImage\<close>, \<open>addPage\<close> and \<open>getOutput\<close> on it, may
  throw, and may keep variables of its own from one call to the next. A \<open>script\<close> is such
  a function: from its memory and the page number it gives the calls it makes, in order,
  and its memory afterwards (set before the calls are made, so that a call of
  \<open>getOutput\<close> from inside it finds it). A script present stands for the field of the
  configuration; where there is none the pass does what the configuration record says.
\<close>

datatype call =
    CallText jsstring real real TextOptions
  | CallImage jsstring real real ImageOptions
  | CallPage
  | CallOutput
  | CallThrow error

type_synonym script = "nat \<Rightarrow> nat \<Rightarrow> call list \<times> nat"

record Callbacks =
  headerScript :: "script option"
  footerScript :: "script option"

text \<open>The document together with the memory of the client's functions.\<close>

type_synonym world = "PdfCreator \<times> nat"

text \<open>
  The calls of a callback, in order, up to the first that throws. \<open>out\<close> is \<open>getOutput\<close>
  called from inside the callback: \<open>None\<close> when it does not return. Of \<open>addImage\<close> the
  part before its \<open>await\<close> runs inside the callback.
\<close>

fun runCalls :: "host \<Rightarrow> (world \<Rightarrow> (world \<times> error option) option) \<Rightarrow> call list \<Rightarrow> world
    \<Rightarrow> (world \<times> error option) option" where
  "runCalls h out [] w = Some (w, None)"
| "runCalls h out (CallText text x y opts # cs) w =
     (case addText h text x y opts (fst w) of
        (s', Inl e) \<Rightarrow> Some ((s', snd w), Some e)
      | (s', Inr v) \<Rightarrow> runCalls h out cs (s', snd w))"
| "runCalls h out (CallImage imageData x y opts # cs) w =
     runCalls h out cs (fst (addImageBegin y opts (fst w)), snd w)"
| "runCalls h out (CallPage # cs) w = runCalls h out cs (addPage (fst w), snd w)"
| "runCalls h out (CallOutput # cs) w =
     (case out w of
        None \<Rightarrow> None
      | Some (w', Some e) \<Rightarrow> Some (w', Some e)
      | Some (w', None) \<Rightarrow> runCalls h out cs w')"
| "runCalls h out (CallThrow e # cs) w = Some (w, Some e)"

definition callScript :: "host \<Rightarrow> (world \<Rightarrow> (world \<times> error option) option) \<Rightarrow> script \<Rightarrow> nat \<Rightarrow> world
    \<Rightarrow> (world \<times> error option) option" where
  "callScript h out f pageNum w =
    (let (calls, m') = f (snd w) pageNum in runCalls h out calls (fst w, m'))"

definition applyHeaderWith :: "host \<Rightarrow> Callbacks \<Rightarrow> (world \<Rightarrow> (world \<times> error option) option) \<Rightarrow> nat \<Rightarrow> world
    \<Rightarrow> (world \<times> error option) option" where
  "applyHeaderWith h cbs out pageNum w =
    (case headerScript cbs of
       Some f \<Rightarrow> callScript h out f pageNum w
     | None \<Rightarrow> (case applyHeader h pageNum (fst w) of (s', r) \<Rightarrow> Some ((s', snd w), r)))"

definition applyFooterWith :: "host \<Rightarrow> Callbacks \<Rightarrow> (world \<Rightarrow> (world \<times> error option) option) \<Rightarrow> nat \<Rightarrow> world
    \<Rightarrow> (world \<times> error option) option" where
  "applyFooterWith h cbs out pageNum w =
    (case footerScript cbs of
       Some f \<Rightarrow> callScript h out f pageNum w
     | None \<Rightarrow> (case applyFooter h pageNum (fst w) of (s', r) \<Rightarrow> Some ((s', snd w), r)))"

text \<open>One turn of the loop of \<open>applyHeaderFooter\<close>, for the page at index \<open>i\<close>.\<close>

definition hfPageWith :: "host \<Rightarrow> Callbacks \<Rightarrow> (world \<Rightarrow> (world \<times> error option) option) \<Rightarrow> nat \<Rightarrow> world
    \<Rightarrow> (world \<times> error option) option" where
  "hfPageWith h cbs out i w =
    (let w1 = (setPage (int i) (fst w), snd w); pageNum = i + 1
     in case applyHeaderWith h cbs out pageNum w1 of
          None \<Rightarrow> None
        | Some (w2, Some e) \<Rightarrow> Some (w2, Some e)
        | Some (w2, None) \<Rightarrow> applyFooterWith h cbs out pageNum w2)"

text \<open>
  The loop, which reads \<open>this.pages.length\<close> at every turn, with fuel for its turns: the
  fuel counts the tests of the loop condition, and \<open>None\<close> is a loop that has not ended
  when the fuel is used up.
\<close>

fun hfLoopWith :: "nat \<Rightarrow> host \<Rightarrow> Callbacks \<Rightarrow> (world \<Rightarrow> (world \<times> error option) option) \<Rightarrow> nat \<Rightarrow> world
    \<Rightarrow> (world \<times> error option) option" where
  "hfLoopWith 0 h cbs out i w = None"
| "hfLoopWith (Suc fuel) h cbs out i w =
    (if i < length (pages (fst w)) then
       (case hfPageWith h cbs out i w of
          None \<Rightarrow> None
        | Some (w', Some e) \<Rightarrow> Some (w', Some e)
        | Some (w', None) \<Rightarrow> hfLoopWith fuel h cbs out (Suc i) w')
     else Some (w, None))"

definition applyHeaderFooterWith :: "nat \<Rightarrow> host \<Rightarrow> Callbacks \<Rightarrow> (world \<Rightarrow> (world \<times> error option) option)
    \<Rightarrow> world \<Rightarrow> (world \<times> error option) option" where
  "applyHeaderFooterWith fuel h cbs out w =
    (let s0 = (fst w)\<lparr>isApplyingHeaderFooter := True\<rparr>;
         originalPageIndex = currentPageIndex s0
     in case hfLoopWith fuel h cbs out 0 (s0, snd w) of
          None \<Rightarrow> None
        | Some (w1, Some e) \<Rightarrow> Some (w1, Some e)
        | Some (w1, None) \<Rightarrow>
            Some (((fst w1)\<lparr>currentPageIndex := originalPageIndex, isApplyingHeaderFooter := False\<rparr>,
                   snd w1), None))"

definition buildPdfWith :: "nat \<Rightarrow> host \<Rightarrow> Callbacks \<Rightarrow> (world \<Rightarrow> (world \<times> error option) option)
    \<Rightarrow> world \<Rightarrow> (world \<times> (error + 8 word list)) option" where
  "buildPdfWith fuel h cbs out w =
    (case applyHeaderFooterWith fuel h cbs out w of
       None \<Rightarrow> None
     | Some (w1, Some e) \<Rightarrow> Some (w1, Inl e)
     | Some (w1, None) \<Rightarrow> (case serialize h (fst w1) of (s3, r) \<Rightarrow> Some ((s3, snd w1), r)))"

text \<open>
  \<open>getOutput\<close>, which is \<open>buildPdf\<close> and the wrapping of its bytes: the fuel bounds the
  turns of the loop and the depth of the calls of \<open>getOutput\<close> from inside callbacks.
\<close>

primrec getOutputWith :: "nat \<Rightarrow> host \<Rightarrow> Callbacks \<Rightarrow> world \<Rightarrow> (world \<times> (error + 8 word list)) option" where
  "getOutputWith 0 h cbs w = None"
| "getOutputWith (Suc fuel) h cbs w =
     buildPdfWith fuel h cbs (\<lambda>w'. map_option thrown (getOutputWith fuel h cbs w')) w"


section \<open>Vocabulary of the properties\<close>

text \<open>
  The definitions of this section are not functions of the source: they name what the
  functions above leave behind, so that the properties can be stated, and they fix the
  sample host and documents on which the properties are evaluated.
\<close>

text \<open>The page that \<open>addPage\<close> appends when the counter stands at \<open>n\<close>.\<close>

definition newPage :: "nat \<Rightarrow> Page" where
  "newPage n = \<lparr>page_id = n, contentId = n + 1, content = [], res_fonts = [], res_images = []\<rparr>"

text \<open>A page after \<open>addText\<close> has placed the text on it at height \<open>y\<close>.\<close>

definition placedText :: "host \<Rightarrow> jsstring \<Rightarrow> real \<Rightarrow> real \<Rightarrow> TextOptions \<Rightarrow> Page \<Rightarrow> Page" where
  "placedText h text x y opts p =
     p\<lparr>res_fonts := setAdd (fontResourceNameOf (fontKeyOf h (fontOf opts) (styleOf opts))) (res_fonts p),
       content := content p @ [textContent h text x y opts]\<rparr>"

text \<open>A page after \<open>addImage\<close> has placed the image \<open>imageKey\<close> on it at height \<open>y\<close>.\<close>

definition placedImage :: "host \<Rightarrow> jsstring \<Rightarrow> real \<Rightarrow> real \<Rightarrow> ImageOptions \<Rightarrow> Page \<Rightarrow> Page" where
  "placedImage h imageKey x y opts p =
     p\<lparr>res_images := setAdd imageKey (res_images p),
       content := content p @ [imageContent h imageKey x y opts]\<rparr>"

text \<open>The key that \<open>addImage\<close> derives from the size of the registry.\<close>

definition nextImageKey :: "PdfCreator \<Rightarrow> jsstring" where
  "nextImageKey s = js ''I'' @ showNat (length (images s) + 1)"

text \<open>The document after \<open>addImage\<close> has entered the image in the registry.\<close>

definition registered :: "jsstring \<Rightarrow> ImageOptions \<Rightarrow> PdfCreator \<Rightarrow> PdfCreator" where
  "registered processedData opts s =
     (if map_of (images s) (nextImageKey s) = None
      then s\<lparr>objectCounter := objectCounter s + 1,
             images := images s @ [(nextImageKey s, \<lparr>img_id = objectCounter s, img_width = io_width opts,
                        img_height = io_height opts, img_data = stripDataPrefix processedData\<rparr>)]\<rparr>
      else s)"

text \<open>What the header and footer pass never touches: the configuration, the counter, the
  registry, the reserved heights, and of every page its two ids and its image names.\<close>

definition frame :: "PdfCreator \<Rightarrow>
    PdfConfig \<times> nat \<times> (jsstring \<times> Image) list \<times> real \<times> real \<times> (nat \<times> nat \<times> jsstring list) list" where
  "frame s = (config s, objectCounter s, images s, headerHeight s, footerHeight s,
              map (\<lambda>p. (page_id p, contentId p, res_images p)) (pages s))"

text \<open>Inside the pass, at page \<open>i\<close>: the guard is set and page \<open>i\<close> is the current page.\<close>

definition passAt :: "nat \<Rightarrow> PdfCreator \<Rightarrow> bool" where
  "passAt i s = (isApplyingHeaderFooter s \<and> currentPageIndex s = int i \<and> i < length (pages s))"

text \<open>A step of the pass at page \<open>i\<close>: it stays at page \<open>i\<close>, keeps the frame and every
  other page.\<close>

definition stepAt :: "nat \<Rightarrow> PdfCreator \<Rightarrow> PdfCreator \<Rightarrow> bool" where
  "stepAt i s s' = (passAt i s' \<and> frame s' = frame s \<and> (\<forall>k. k \<noteq> i \<longrightarrow> pages s' ! k = pages s ! k))"

text \<open>The fragment that the default footer \<open>d\<close> places on page number \<open>pageNum\<close>.\<close>

definition footerFragment :: "host \<Rightarrow> DefaultFooterConfig \<Rightarrow> nat \<Rightarrow> jsstring" where
  "footerFragment h d pageNum =
     (let a = (case df_align d of None \<Rightarrow> AlignCenter | Some v \<Rightarrow> v);
          c = (case df_color d of None \<Rightarrow> js ''#000000'' | Some v \<Rightarrow> v)
      in textContent h (footerText d pageNum) (alignX a) 820 (hfOptions a c))"

text \<open>Page \<open>p\<close>, at index \<open>i\<close>, carries the default footer as its last fragment, where the
  configuration has a default footer with a text to show and no footer callback.\<close>

definition footerDone :: "host \<Rightarrow> PdfConfig \<Rightarrow> nat \<Rightarrow> Page \<Rightarrow> bool" where
  "footerDone h cfg i p = (case (onFooter cfg, defaultFooter cfg) of
      (None, Some d) \<Rightarrow> footerText d (i + 1) \<noteq> [] \<longrightarrow>
          content p \<noteq> [] \<and> last (content p) = footerFragment h d (i + 1)
    | _ \<Rightarrow> True)"

text \<open>The literal text of a default footer: \<open>text = ''\<close> when it is absent.\<close>

definition footerLiteral :: "DefaultFooterConfig \<Rightarrow> jsstring" where
  "footerLiteral d = (case df_text d of None \<Rightarrow> [] | Some v \<Rightarrow> v)"

text \<open>The contents of the pages after the pass, when it ends without an exception.\<close>

definition passContents :: "host \<Rightarrow> PdfCreator \<Rightarrow> jsstring list list option" where
  "passContents h s = (case applyHeaderFooter h s of
       Some (s', None) \<Rightarrow> Some (map content (pages s'))
     | _ \<Rightarrow> None)"

text \<open>A call that places a text or an image.\<close>

definition placing :: "call \<Rightarrow> bool" where
  "placing c = (case c of CallText t x y opts \<Rightarrow> True | CallImage d x y opts \<Rightarrow> True
     | CallPage \<Rightarrow> False | CallOutput \<Rightarrow> False | CallThrow e \<Rightarrow> False)"

text \<open>A callback that, whatever its memory and the page, does nothing but place text and
  images; no callback at all is one.\<close>

definition placesOnly :: "script option \<Rightarrow> bool" where
  "placesOnly f = (case f of None \<Rightarrow> True | Some g \<Rightarrow> (\<forall>m n. list_all placing (fst (g m n))))"

text \<open>The contents of the pages after \<open>getOutput\<close> has returned or thrown, from the
  document \<open>s\<close> and the memory 0.\<close>

definition outputContents :: "nat \<Rightarrow> host \<Rightarrow> Callbacks \<Rightarrow> PdfCreator \<Rightarrow> jsstring list list option" where
  "outputContents fuel h cbs s = (case getOutputWith fuel h cbs (s, 0) of
       Some (w, r) \<Rightarrow> Some (map content (pages (fst w)))
     | None \<Rightarrow> None)"

text \<open>\<open>getOutput\<close> called from inside a callback, as \<open>getOutputWith\<close> hands it to the
  pass: the bytes are dropped and an exception is passed on.\<close>

definition reenter :: "nat \<Rightarrow> host \<Rightarrow> Callbacks \<Rightarrow> world \<Rightarrow> (world \<times> error option) option" where
  "reenter fuel h cbs w = map_option thrown (getOutputWith fuel h cbs w)"

text \<open>The list \<open>hdr\<close> begins at index \<open>off\<close> of \<open>out\<close>.\<close>

definition headerAt :: "'b list \<Rightarrow> nat \<Rightarrow> 'b list \<Rightarrow> bool" where
  "headerAt out off hdr = (off + length hdr \<le> length out \<and> take (length hdr) (drop off out) = hdr)"

text \<open>The local state of the serializer is sound: the offset is the length of the text, and
  every stored offset of an id other than 0 is where that object's header begins.\<close>

definition accOK :: "build \<Rightarrow> bool" where
  "accOK acc = (currentOffset acc = length (buffer acc)
     \<and> (\<forall>k off. k \<noteq> 0 \<and> xref acc k = Some off \<longrightarrow> headerAt (buffer acc) off (objHeader k)))"

text \<open>The ids held by the pages, in page order: of each page its own id and the id of its content stream.\<close>

definition pageIds :: "PdfCreator \<Rightarrow> nat list" where
  "pageIds s = concat (map (\<lambda>p. [page_id p, contentId p]) (pages s))"

text \<open>The ids held by the image registry, in registration order.\<close>

definition imageIds :: "PdfCreator \<Rightarrow> nat list" where
  "imageIds s = map (\<lambda>ki. img_id (snd ki)) (images s)"

text \<open>The ids that the document holds are exactly the ids issued so far, \<open>1\<close> to \<open>objectCounter - 1\<close>, each held once, and they grow along the pages and along the registry.\<close>

definition allocOK :: "PdfCreator \<Rightarrow> bool" where
  "allocOK s = (1 \<le> objectCounter s \<and> sorted_wrt (<) (pageIds s) \<and> sorted_wrt (<) (imageIds s)
      \<and> distinct (pageIds s @ imageIds s) \<and> set (pageIds s @ imageIds s) = {1..<objectCounter s})"

text \<open>An object as \<open>addObject\<close> appends it.\<close>

definition fullObject :: "nat \<Rightarrow> jsstring \<Rightarrow> jsstring" where
  "fullObject i c = objHeader i @ c @ objFooter"

text \<open>The two objects of a page that uses no image.\<close>

definition pageObjects :: "nat \<Rightarrow> Page \<Rightarrow> jsstring" where
  "pageObjects pagesRootId p =
     fullObject (page_id p) (pageContent pagesRootId p []) @ fullObject (contentId p) (streamObject p)"

text \<open>A document without images.\<close>

definition imageless :: "PdfCreator \<Rightarrow> bool" where
  "imageless s = (images s = [] \<and> (\<forall>p \<in> set (pages s). res_images p = []))"

subsection \<open>A sample host and sample documents\<close>

definition asciiLower :: "jsstring \<Rightarrow> jsstring" where
  "asciiLower s = map (\<lambda>c. if 0x41 \<le> c \<and> c \<le> 0x5A then c + 0x20 else c) s"

text \<open>A number in decimal, rounded to hundredths, without trailing zeros.\<close>

definition showHundredths :: "real \<Rightarrow> jsstring" where
  "showHundredths v =
    (let n = nat \<lfloor>\<bar>v\<bar> * 100 + 1 / 2\<rfloor>; ip = n div 100; fp = n mod 100;
         digits = (if fp = 0 then showNat ip
                   else if fp mod 10 = 0 then showNat ip @ js ''.'' @ showNat (fp div 10)
                   else showNat ip @ js ''.'' @ showNat (fp div 10) @ showNat (fp mod 10))
     in if v < 0 \<and> n \<noteq> 0 then js ''-'' @ digits else digits)"

text \<open>A host that prints numbers to hundredths, lowers ASCII letters, rejects the empty
  image source and takes the stored data as decoded.\<close>

definition sampleHost :: host where
  "sampleHost = \<lparr>numToString = showHundredths, toLowerCase = asciiLower,
     processImage = (\<lambda>src. if src = [] then Inl ImageRejected else Inr (js ''data:image/jpeg;base64,'' @ src)),
     atob = Some\<rparr>"

definition emptyConfig :: PdfConfig where
  "emptyConfig = \<lparr>cfg_headerHeight = None, cfg_footerHeight = None, onHeader = None, onFooter = None,
     defaultHeader = None, defaultFooter = None\<rparr>"

definition pageNumberFooter :: DefaultFooterConfig where
  "pageNumberFooter = \<lparr>df_text = None, df_showPageNumbers = Some True, df_align = None, df_color = None\<rparr>"

text \<open>Both reserved heights asked beyond the maximum, and page numbers in the footer.\<close>

definition tallBandsConfig :: PdfConfig where
  "tallBandsConfig = emptyConfig\<lparr>cfg_headerHeight := Some 300, cfg_footerHeight := Some 300,
     defaultFooter := Some pageNumberFooter\<rparr>"

definition plainText :: TextOptions where
  "plainText = \<lparr>to_size = None, to_font = None, to_style = None, to_color = None, to_align = None\<rparr>"

text \<open>A text of size \<open>12.000000000000028\<close>.\<close>

definition fineText :: TextOptions where
  "fineText = plainText\<lparr>to_size := Some (double 12.000000000000028)\<rparr>"

definition squareImage :: ImageOptions where
  "squareImage = \<lparr>io_width = 50, io_height = 50\<rparr>"

text \<open>A default footer with a literal text that does not say whether page numbers show.\<close>

definition reportFooter :: DefaultFooterConfig where
  "reportFooter = \<lparr>df_text = Some (js ''Report''), df_showPageNumbers = None, df_align = None, df_color = None\<rparr>"

definition reportConfig :: PdfConfig where
  "reportConfig = emptyConfig\<lparr>defaultFooter := Some reportFooter\<rparr>"

text \<open>A footer callback that places nothing, beside a default footer.\<close>

definition silentFooterConfig :: PdfConfig where
  "silentFooterConfig = emptyConfig\<lparr>onFooter := Some (\<lambda>pageNum. []), defaultFooter := Some pageNumberFooter\<rparr>"

definition silentReportConfig :: PdfConfig where
  "silentReportConfig = emptyConfig\<lparr>onFooter := Some (\<lambda>pageNum. []), defaultFooter := Some reportFooter\<rparr>"

text \<open>A header callback that places a title on every page.\<close>

definition titleScript :: script where
  "titleScript m n = ([CallText (js ''Title'') 20 20 plainText], m)"

definition titleHeader :: Callbacks where
  "titleHeader = \<lparr>headerScript = Some titleScript, footerScript = None\<rparr>"

text \<open>A header callback that calls \<open>addPage\<close> when it is called for page 1:
  \<open>onHeader: (doc, n) => { if (n === 1) doc.addPage(); }\<close>.\<close>

definition pageAdder :: script where
  "pageAdder m n = (if n = 1 then [CallPage] else [], m)"

definition addingHeader :: Callbacks where
  "addingHeader = \<lparr>headerScript = Some pageAdder, footerScript = None\<rparr>"

text \<open>A footer of page numbers alone, and nothing else configured.\<close>

definition pageNumbersConfig :: PdfConfig where
  "pageNumbersConfig = emptyConfig\<lparr>defaultFooter := Some pageNumberFooter\<rparr>"


text \<open>A document of two pages: one call of \<open>addPage\<close> after the constructor.\<close>

definition twoPages :: "PdfConfig \<Rightarrow> PdfCreator" where
  "twoPages cfg = runCommands sampleHost [AddPage] (constructor cfg)"

text \<open>A document inside the pass: the guard is set.\<close>

definition guarded :: "PdfCreator \<Rightarrow> PdfCreator" where
  "guarded s = s\<lparr>isApplyingHeaderFooter := True\<rparr>"

text \<open>The bytes of the empty document, as the serializer writes them.\<close>

definition emptyDocumentOutput :: "8 word list" where
  "emptyDocumentOutput = toBytes (js ''%PDF-1.7\<newline>3 0 obj\<newline><< /Type /Catalog /Pages 4 0 R >>\<newline>endobj\<newline>4 0 obj\<newline><< /Type /Pages /Kids [1 0 R] /Count 1 >>\<newline>endobj\<newline>1 0 obj\<newline><< /Type /Page /Parent 4 0 R /MediaBox [0 0 595.28 841.89] /Contents 2 0 R /Resources <<   >> >>\<newline>endobj\<newline>2 0 obj\<newline><< /Length 0 >>\<newline>stream\<newline>\<newline>endstream\<newline>endobj\<newline>xref\<newline>0 5\<newline>0000000000 65535 f \<newline>0000000115 00000 n \<newline>0000000227 00000 n \<newline>0000000009 00000 n \<newline>0000000058 00000 n \<newline>trailer\<newline><< /Size 5 /Root 3 0 R >>\<newline>startxref\<newline>276\<newline>%%EOF'')"

text \<open>The document after the constructor and \<open>n\<close> calls of \<open>addPage\<close>.\<close>

definition pagesOnly :: "host \<Rightarrow> PdfConfig \<Rightarrow> nat \<Rightarrow> PdfCreator" where
  "pagesOnly h cfg n = runCommands h (replicate n AddPage) (constructor cfg)"

text \<open>A document with a text, an image and a second page.\<close>

definition mixedDocument :: PdfCreator where
  "mixedDocument = runCommands sampleHost
     [AddText (js ''A'') 20 20 plainText, AddImage (js ''abc'') 20 40 squareImage, AddPage]
     (constructor emptyConfig)"

text \<open>A text in a font family outside the table.\<close>

definition arialText :: TextOptions where
  "arialText = plainText\<lparr>to_font := Some (js ''Arial'')\<rparr>"

definition arialDocument :: PdfCreator where
  "arialDocument = runCommands sampleHost [AddText (js ''x'') 20 20 arialText] (constructor emptyConfig)"


section \<open>Properties of the rounding\<close>

lemma pow2_powr: "pow2 k = 2 powr (of_int k)"
  by (simp add: pow2_def powr_int)

lemma binade_eq:
  assumes "pow2 k \<le> \<bar>x\<bar>" "\<bar>x\<bar> < pow2 (k + 1)"
  shows "binade x = k"
proof -
  have p: "0 < \<bar>x\<bar>" using assms(1) by (smt (verit) pow2_powr powr_gt_zero)
  have "2 powr (of_int k) \<le> \<bar>x\<bar>" "\<bar>x\<bar> < 2 powr (of_int (k + 1))"
    using assms by (simp_all add: pow2_powr)
  then show ?thesis unfolding binade_def
    using p floor_log_eq_powr_iff [of "\<bar>x\<bar>" 2 k] by simp
qed

text \<open>The rounding of a number whose binade is known: the form in which it is evaluated.\<close>

lemma double_eval:
  assumes "pow2 k \<le> \<bar>x\<bar>" "\<bar>x\<bar> < pow2 (k + 1)" "- 1022 \<le> k"
  shows "double x = of_int (roundEven (x / pow2 (k - 52))) * pow2 (k - 52)"
proof -
  have "x \<noteq> 0" using assms(1) by (smt (verit) pow2_powr powr_gt_zero)
  then show ?thesis using assms(3)
    by (simp add: double_def binade_eq [OF assms(1,2)] max_def Let_def)
qed

lemma PAGE_HEIGHT_value: "PAGE_HEIGHT = 7405342754466693 / 8796093022208"
  unfolding PAGE_HEIGHT_def
  by (subst double_eval [where k = 9]) (simp_all add: pow2_def roundEven_def)

lemma PAGE_WIDTH_value: "PAGE_WIDTH = 2618069127129989 / 4398046511104"
  unfolding PAGE_WIDTH_def
  by (subst double_eval [where k = 9]) (simp_all add: pow2_def roundEven_def)

lemma double_PAGE_HEIGHT: "double PAGE_HEIGHT = PAGE_HEIGHT"
  unfolding PAGE_HEIGHT_value
  by (subst double_eval [where k = 9]) (simp_all add: pow2_def roundEven_def)

lemma double_PAGE_HEIGHT_value:
  "double (7405342754466693 / 8796093022208) = 7405342754466693 / 8796093022208"
  using double_PAGE_HEIGHT by (simp only: PAGE_HEIGHT_value)

lemma double_small_values:
  "double 20 = 20" "double 32 = 32" "double 90 = 90" "double 220 = 220" "double 830 = 830"
      apply (subst double_eval [where k = 4], simp_all add: pow2_def roundEven_def)
     apply (subst double_eval [where k = 5], simp_all add: pow2_def roundEven_def)
    apply (subst double_eval [where k = 6], simp_all add: pow2_def roundEven_def)
   apply (subst double_eval [where k = 7], simp_all add: pow2_def roundEven_def)
  apply (subst double_eval [where k = 9], simp_all add: pow2_def roundEven_def)
  done


section \<open>Properties of hexToRgb\<close>

lemma hexVal_le: "isHexDigit c \<Longrightarrow> hexVal c \<le> 15"
  unfolding isHexDigit_def hexVal_def
  by (auto simp: word_le_nat_alt word_less_nat_alt not_le)

lemma len6E:
  assumes "length xs = 6"
  obtains a b c d e f where "xs = [a, b, c, d, e, f]"
proof -
  from assms obtain a b c d e f where "xs = [a, b, c, d, e, f]"
    by (auto simp: eval_nat_numeral length_Suc_conv)
  then show thesis by (rule that)
qed

lemma hash_not_hex: "\<not> isHexDigit 0x23"
  by (simp add: isHexDigit_def)

lemma hexExec_body:
  assumes "length body = 6" "list_all isHexDigit body" "hex = body \<or> hex = 0x23 # body"
  shows "hexExec hex = Some (take 2 body, take 2 (drop 2 body), drop 4 body)"
proof -
  from assms(1) obtain a b c d e f where body: "body = [a, b, c, d, e, f]" by (rule len6E)
  have "a \<noteq> 0x23" using assms(2) hash_not_hex by (auto simp: body)
  then show ?thesis using assms
    by (auto simp: hexExec_def startsWith_def js_def body)
qed

lemma hexToRgb_body:
  assumes "length body = 6" "list_all isHexDigit body" "hex = body \<or> hex = 0x23 # body"
  shows "hexToRgb hex = \<lparr>rgb_r = channel body 0, rgb_g = channel body 1, rgb_b = channel body 2\<rparr>"
proof -
  from assms(1) obtain a b c d e f where body: "body = [a, b, c, d, e, f]" by (rule len6E)
  show ?thesis
    by (simp add: hexToRgb_def hexExec_body [OF assms] channel_def parseHex_def) (simp add: body)
qed

lemma channel_range:
  assumes "length body = 6" "list_all isHexDigit body" "i < 3"
  shows "0 \<le> channel body i \<and> channel body i \<le> 1"
proof -
  have "2 * i < length body" "2 * i + 1 < length body" using assms by auto
  then have "isHexDigit (body ! (2 * i))" "isHexDigit (body ! (2 * i + 1))"
    using assms(2) by (auto simp: list_all_length)
  then have "hexVal (body ! (2 * i)) \<le> 15" "hexVal (body ! (2 * i + 1)) \<le> 15"
    by (auto dest: hexVal_le)
  then have "16 * hexVal (body ! (2 * i)) + hexVal (body ! (2 * i + 1)) \<le> 255" by linarith
  then have "real (16 * hexVal (body ! (2 * i)) + hexVal (body ! (2 * i + 1))) \<le> 255"
    by (metis of_nat_le_iff of_nat_numeral)
  then show ?thesis by (simp add: channel_def)
qed

lemma hexExec_None: "\<not> matchesOptHashRRGGBB hex \<Longrightarrow> hexExec hex = None"
  unfolding matchesOptHashRRGGBB_def matchesHashRRGGBB_def hexExec_def startsWith_def js_def
  by (cases hex) (auto simp: Let_def)


text \<open>
  Claim C8, as amended. For every string that is six hexadecimal digits, with or without
  a leading \<open>#\<close>, \<open>hexToRgb\<close> returns the three components over 255, each in
  \<open>[0,1]\<close>; for every other string it returns black, and it never fails.
\<close>

theorem hexToRgb_channels:
  "(matchesOptHashRRGGBB hex \<longrightarrow>
      hexToRgb hex = \<lparr>rgb_r = channel (hexBody hex) 0, rgb_g = channel (hexBody hex) 1,
                      rgb_b = channel (hexBody hex) 2\<rparr>
      \<and> (\<forall>i<3. 0 \<le> channel (hexBody hex) i \<and> channel (hexBody hex) i \<le> 1))
   \<and> (\<not> matchesOptHashRRGGBB hex \<longrightarrow> hexToRgb hex = \<lparr>rgb_r = 0, rgb_g = 0, rgb_b = 0\<rparr>)"
proof (intro conjI impI)
  assume m: "matchesOptHashRRGGBB hex"
  have b: "length (hexBody hex) = 6 \<and> list_all isHexDigit (hexBody hex)
           \<and> (hex = hexBody hex \<or> hex = 0x23 # hexBody hex)"
    using m unfolding matchesOptHashRRGGBB_def matchesHashRRGGBB_def hexBody_def
    by (cases hex) auto
  show "hexToRgb hex = \<lparr>rgb_r = channel (hexBody hex) 0, rgb_g = channel (hexBody hex) 1,
                      rgb_b = channel (hexBody hex) 2\<rparr>"
    using b hexToRgb_body by blast
  show "\<forall>i<3. 0 \<le> channel (hexBody hex) i \<and> channel (hexBody hex) i \<le> 1"
    using b channel_range by blast
next
  assume "\<not> matchesOptHashRRGGBB hex"
  then show "hexToRgb hex = \<lparr>rgb_r = 0, rgb_g = 0, rgb_b = 0\<rparr>"
    by (simp add: hexToRgb_def hexExec_None)
qed

theorem hexToRgb_channels_witness:
  "matchesOptHashRRGGBB (js ''#FF0080'') \<and> \<not> matchesOptHashRRGGBB (js ''#ff008'')
   \<and> hexToRgb (js ''#FF0080'') = \<lparr>rgb_r = 1, rgb_g = 0, rgb_b = 128 / 255\<rparr>
   \<and> hexToRgb (js ''#ff008'') = \<lparr>rgb_r = 0, rgb_g = 0, rgb_b = 0\<rparr>"
proof -
  have m: "matchesOptHashRRGGBB (js ''#FF0080'')"
    by (simp add: matchesOptHashRRGGBB_def matchesHashRRGGBB_def js_def isHexDigit_def)
  have n: "\<not> matchesOptHashRRGGBB (js ''#ff008'')"
    by (simp add: matchesOptHashRRGGBB_def matchesHashRRGGBB_def js_def isHexDigit_def)
  have c: "channel (hexBody (js ''#FF0080'')) 0 = 1" "channel (hexBody (js ''#FF0080'')) 1 = 0"
    "channel (hexBody (js ''#FF0080'')) 2 = 128 / 255"
    by (simp_all add: channel_def hexBody_def js_def hexVal_def)
  show ?thesis
    using hexToRgb_channels [of "js ''#FF0080''"] hexToRgb_channels [of "js ''#ff008''"] m n c
    by simp
qed

text \<open>
  Claim C8 as stated fails: \<open>ff0000\<close> does not match \<open>#RRGGBB\<close>, since the \<open>#\<close> is
  missing, and is decoded to red, not to black.
\<close>

theorem hexToRgb_bare_counterexample:
  "\<not> (\<not> matchesHashRRGGBB (js ''ff0000'')
       \<longrightarrow> hexToRgb (js ''ff0000'') = \<lparr>rgb_r = 0, rgb_g = 0, rgb_b = 0\<rparr>)"
  by (simp add: matchesHashRRGGBB_def hexToRgb_def hexExec_def js_def startsWith_def isHexDigit_def
      parseHex_def hexVal_def)

section \<open>Decimal digits\<close>

lemma foldl_digits_zero: "foldl (\<lambda>a c. 10 * a + (unat c - 48)) 0 (replicate m (0x30 :: 16 word)) = (0::nat)"
  by (induction m) auto

lemma unat_digitChar: "d < 10 \<Longrightarrow> unat (digitChar d) = 48 + d"
  unfolding digitChar_def by (rule of_nat_inverse [OF refl]) simp

lemma foldl_showNat:
  "foldl (\<lambda>a c. 10 * a + (unat c - 48)) 0 (showNat n) = n"
proof (induction n rule: showNat.induct)
  case (1 n)
  show ?case
  proof (cases "n < 10")
    case True
    then show ?thesis by (simp add: showNat.simps [of n] unat_digitChar)
  next
    case False
    then show ?thesis using "1.IH" [OF False]
      by (simp add: showNat.simps [of n] unat_digitChar)
  qed
qed

lemma showNat_digits: "c \<in> set (showNat n) \<Longrightarrow> 48 \<le> unat c \<and> unat c \<le> 57"
proof (induction n arbitrary: c rule: showNat.induct)
  case (1 n)
  show ?case
  proof (cases "n < 10")
    case True
    then have "c = digitChar n" using "1.prems" by (simp add: showNat.simps [of n])
    then show ?thesis using True by (simp add: unat_digitChar)
  next
    case False
    then have "c \<in> set (showNat (n div 10)) \<or> c = digitChar (n mod 10)"
      using "1.prems" by (auto simp add: showNat.simps [of n])
    then show ?thesis using "1.IH" [OF False] by (auto simp: unat_digitChar)
  qed
qed

lemma showNat_nonempty: "showNat n \<noteq> []"
  by (simp add: showNat.simps [of n])

lemma isDigit_unat: "isDigit c = (48 \<le> unat c \<and> unat c \<le> 57)"
  by (simp add: isDigit_def word_le_nat_alt)

lemma parseInt_xrefLine: "parseInt (xrefLine n) = Some n"
proof -
  let ?ds = "replicate (10 - length (showNat n)) (0x30 :: 16 word) @ showNat n"
  have d: "\<forall>c \<in> set ?ds. isDigit c"
    using showNat_digits [of _ n] by (auto simp: isDigit_unat)
  have x: "xrefLine n = ?ds @ 0x20 # (js ''00000 n '' @ nl)"
    by (simp add: xrefLine_def padStart_def js_def)
  have s: "\<not> isDigit 0x20" by (simp add: isDigit_def)
  have "takeWhile isDigit (xrefLine n) = takeWhile isDigit ?ds"
    unfolding x by (rule takeWhile_tail) (rule s)
  also have "\<dots> = ?ds" using d by (simp only: takeWhile_eq_all_conv)
  finally have t: "takeWhile isDigit (xrefLine n) = ?ds" .
  have "?ds \<noteq> []" using showNat_nonempty by simp
  moreover have "foldl (\<lambda>a c. 10 * a + (unat c - 48)) 0 ?ds = n"
    by (simp add: foldl_digits_zero foldl_showNat)
  ultimately show ?thesis unfolding parseInt_def t Let_def by simp
qed

section \<open>The sample host at sample values\<close>

lemma showNat_0: "showNat 0 = [0x30]"
  by (simp add: showNat.simps [of 0] digitChar_def)


lemma double_page_values:
  "double (PAGE_HEIGHT - 20) = 7229420894022533 / 8796093022208"
  "double (7229420894022533 / 8796093022208 - 50) = 6789616242912133 / 8796093022208"
  "double (PAGE_HEIGHT - 200) = 5646124150025093 / 8796093022208"
   apply (simp add: PAGE_HEIGHT_value, subst double_eval [where k = 9], simp_all add: pow2_def roundEven_def)
   apply (subst double_eval [where k = 9], simp_all add: pow2_def roundEven_def)
  apply (simp add: PAGE_HEIGHT_value, subst double_eval [where k = 9], simp_all add: pow2_def roundEven_def)
  done




lemma sample_values:
  "numToString sampleHost 12 = js ''12''" "numToString sampleHost 0 = js ''0''"
  "numToString sampleHost 20 = js ''20''" "numToString sampleHost 50 = js ''50''"
  "numToString sampleHost (7229420894022533 / 8796093022208) = js ''821.89''"
  "numToString sampleHost (6789616242912133 / 8796093022208) = js ''771.89''"
  by (simp_all add: sampleHost_def showHundredths_def showNat.simps digitChar_def js_def)

lemma sample_numbers:
  "numToString sampleHost 12 = js ''12''" "numToString sampleHost 0 = js ''0''"
  "numToString sampleHost 20 = js ''20''" "numToString sampleHost 50 = js ''50''"
  "numToString sampleHost (double (PAGE_HEIGHT - 20)) = js ''821.89''"
  "numToString sampleHost (double (double (PAGE_HEIGHT - 20) - 50)) = js ''771.89''"
  by (simp_all only: double_page_values sample_values)




lemma black: "hexToRgb (js ''#000000'') = \<lparr>rgb_r = 0, rgb_g = 0, rgb_b = 0\<rparr>"
  by (simp add: hexToRgb_def hexExec_def startsWith_def isHexDigit_def parseHex_def hexVal_def js_def)



section \<open>Properties of the placement calls\<close>

lemma addPage_eq:
  "addPage s = s\<lparr>objectCounter := objectCounter s + 2, pages := pages s @ [newPage (objectCounter s)],
                 currentPageIndex := int (length (pages s))\<rparr>"
  by (simp add: addPage_def getNextId_def newPage_def)

lemma addPage_fields [simp]:
  "pages (addPage s) = pages s @ [newPage (objectCounter s)]"
  "currentPageIndex (addPage s) = int (length (pages s))"
  "objectCounter (addPage s) = objectCounter s + 2"
  "images (addPage s) = images s"
  "config (addPage s) = config s"
  "headerHeight (addPage s) = headerHeight s"
  "footerHeight (addPage s) = footerHeight s"
  "isApplyingHeaderFooter (addPage s) = isApplyingHeaderFooter s"
  by (simp_all add: addPage_eq)

lemma arrayAt_last [simp]: "arrayAt (xs @ [x]) (int (length xs)) = Some x"
  by (simp add: arrayAt_def)

lemma addText_overflow_eq:
  assumes "\<not> isApplyingHeaderFooter s" "double (y + sizeOf opts) > double (PAGE_HEIGHT - footerHeight s)"
  shows "addText h text x y opts s =
           ((addPage s)\<lparr>pages := pages s @ [placedText h text x (double (headerHeight s + 20)) opts (newPage (objectCounter s))]\<rparr>,
            Inr (double (headerHeight s + 20)))"
  using assms by (simp add: addText_def placedText_def)

lemma addText_plain_eq:
  assumes "isApplyingHeaderFooter s \<or> \<not> double (y + sizeOf opts) > double (PAGE_HEIGHT - footerHeight s)"
  shows "addText h text x y opts s =
           (case arrayAt (pages s) (currentPageIndex s) of
              None \<Rightarrow> (s, Inl TypeError)
            | Some p \<Rightarrow> (s\<lparr>pages := (pages s)[nat (currentPageIndex s) := placedText h text x y opts p]\<rparr>, Inr y))"
  using assms by (auto simp add: addText_def placedText_def split: option.splits)

lemma addImageBegin_overflow_eq:
  assumes "\<not> isApplyingHeaderFooter s" "double (y + io_height opts) > double (PAGE_HEIGHT - footerHeight s)"
  shows "addImageBegin y opts s = (addPage s, double (headerHeight s + 20))"
  using assms by (simp add: addImageBegin_def)

lemma addImageBegin_plain_eq:
  assumes "isApplyingHeaderFooter s \<or> \<not> double (y + io_height opts) > double (PAGE_HEIGHT - footerHeight s)"
  shows "addImageBegin y opts s = (s, y)"
  using assms by (auto simp add: addImageBegin_def)

lemma registered_fields [simp]:
  "pages (registered d opts s) = pages s"
  "currentPageIndex (registered d opts s) = currentPageIndex s"
  "config (registered d opts s) = config s"
  "headerHeight (registered d opts s) = headerHeight s"
  "footerHeight (registered d opts s) = footerHeight s"
  "isApplyingHeaderFooter (registered d opts s) = isApplyingHeaderFooter s"
  by (simp_all add: registered_def)

lemma addImageCommit_eq:
  "addImageCommit h d x y opts s =
     (case arrayAt (pages s) (currentPageIndex s) of
        None \<Rightarrow> (registered d opts s, Inl TypeError)
      | Some p \<Rightarrow> ((registered d opts s)\<lparr>pages := (pages s)[nat (currentPageIndex s) :=
                       placedImage h (nextImageKey s) x y opts p]\<rparr>, Inr y))"
  by (cases "map_of (images s) (nextImageKey s) = None")
     (auto simp add: addImageCommit_def registered_def nextImageKey_def placedImage_def getNextId_def
        Let_def split: option.splits)




text \<open>
  Claim C6. When the ingestion of the image fails, \<open>addImage\<close> rejects with that failure;
  the registry is unchanged and so is every page that was there, since the call has done
  nothing but, on overflow, append an empty page.
\<close>

theorem addImage_rejected:
  assumes "processImage h imageData = Inl e"
  shows "snd (addImage h imageData x y opts s) = Inl e
       \<and> images (fst (addImage h imageData x y opts s)) = images s
       \<and> take (length (pages s)) (pages (fst (addImage h imageData x y opts s))) = pages s
       \<and> (fst (addImage h imageData x y opts s) = s \<or> fst (addImage h imageData x y opts s) = addPage s)"
proof (cases "\<not> isApplyingHeaderFooter s \<and> double (y + io_height opts) > double (PAGE_HEIGHT - footerHeight s)")
  case True
  then show ?thesis using assms by (simp add: addImage_def addImageBegin_overflow_eq)
next
  case False
  then have "addImageBegin y opts s = (s, y)" by (intro addImageBegin_plain_eq) auto
  then show ?thesis using assms by (simp add: addImage_def)
qed

section \<open>Properties of the header and footer pass\<close>

lemma frame_length: "frame s' = frame s \<Longrightarrow> length (pages s') = length (pages s)"
proof -
  assume "frame s' = frame s"
  then have "map (\<lambda>p. (page_id p, contentId p, res_images p)) (pages s')
     = map (\<lambda>p. (page_id p, contentId p, res_images p)) (pages s)" by (simp add: frame_def)
  then show ?thesis by (rule map_eq_imp_length_eq)
qed

lemma stepAt_refl: "passAt i s \<Longrightarrow> stepAt i s s"
  by (simp add: stepAt_def)

lemma stepAt_trans: "stepAt i s s1 \<Longrightarrow> stepAt i s1 s2 \<Longrightarrow> stepAt i s s2"
  by (simp add: stepAt_def)

lemma placedText_ids [simp]:
  "page_id (placedText h t x y opts p) = page_id p"
  "contentId (placedText h t x y opts p) = contentId p"
  "res_images (placedText h t x y opts p) = res_images p"
  "content (placedText h t x y opts p) = content p @ [textContent h t x y opts]"
  by (simp_all add: placedText_def)

lemma map_update_same:
  "i < length xs \<Longrightarrow> f v = f (xs ! i) \<Longrightarrow> map f (xs[i := v]) = map f xs"
  by (simp add: map_update list_update_same_conv)

lemma addText_pass:
  assumes "passAt i s"
  shows "addText h t x y opts s = (s\<lparr>pages := (pages s)[i := placedText h t x y opts (pages s ! i)]\<rparr>, Inr y)"
  using assms by (simp add: passAt_def addText_plain_eq arrayAt_def)

lemma addText_stepAt:
  assumes "passAt i s"
  shows "stepAt i s (fst (addText h t x y opts s)) \<and> snd (addText h t x y opts s) = Inr y
         \<and> content (pages (fst (addText h t x y opts s)) ! i) = content (pages s ! i) @ [textContent h t x y opts]"
  using assms
  by (simp add: addText_pass [OF assms] stepAt_def passAt_def frame_def map_update_same)

lemma addImageBegin_pass: "passAt i s \<Longrightarrow> addImageBegin y opts s = (s, y)"
  by (simp add: passAt_def addImageBegin_plain_eq)

lemma runPlacements_pass:
  "passAt i s \<Longrightarrow> \<exists>s'. runPlacements h ps s = (s', None) \<and> stepAt i s s'"
proof (induction ps arbitrary: s)
  case Nil
  then show ?case by (simp add: stepAt_refl)
next
  case (Cons p ps)
  show ?case
  proof (cases p)
    case (PlaceText t x y opts)
    let ?s1 = "fst (addText h t x y opts s)"
    have a: "stepAt i s ?s1" "snd (addText h t x y opts s) = Inr y"
      using addText_stepAt [OF Cons.prems] by auto
    then have "passAt i ?s1" by (simp add: stepAt_def)
    from Cons.IH [OF this] obtain s' where s': "runPlacements h ps ?s1 = (s', None)" "stepAt i ?s1 s'"
      by blast
    have "runPlacements h (p # ps) s = (s', None)"
      using a(2) s'(1) by (cases "addText h t x y opts s") (simp add: PlaceText)
    then show ?thesis using stepAt_trans [OF a(1) s'(2)] by blast
  next
    case (PlaceImage d x y opts)
    from Cons.IH [OF Cons.prems] obtain s' where s': "runPlacements h ps s = (s', None)" "stepAt i s s'"
      by blast
    then show ?thesis by (auto simp: PlaceImage addImageBegin_pass [OF Cons.prems])
  qed
qed

lemma thrown_addText_pass:
  assumes "passAt i s"
  shows "\<exists>s'. thrown (addText h t x y opts s) = (s', None) \<and> stepAt i s s'
           \<and> content (pages s' ! i) = content (pages s ! i) @ [textContent h t x y opts]"
proof -
  have "thrown (addText h t x y opts s) = (fst (addText h t x y opts s), None)"
    using addText_stepAt [OF assms, of h t x y opts]
    by (cases "addText h t x y opts s") (auto simp: thrown_def)
  then show ?thesis using addText_stepAt [OF assms, of h t x y opts] by simp
qed

lemma applyHeader_pass:
  assumes "passAt i s"
  shows "\<exists>s'. applyHeader h n s = (s', None) \<and> stepAt i s s'"
proof (cases "onHeader (config s)")
  case (Some cb)
  then show ?thesis using runPlacements_pass [OF assms] by (simp add: applyHeader_def)
next
  case None
  note nh = None
  show ?thesis
  proof (cases "defaultHeader (config s)")
    case None
    then show ?thesis using nh assms by (simp add: applyHeader_def stepAt_refl)
  next
    case (Some d)
    let ?text = "case dh_text d of None \<Rightarrow> [] | Some v \<Rightarrow> v"
    let ?a = "case dh_align d of None \<Rightarrow> AlignCenter | Some v \<Rightarrow> v"
    let ?c = "case dh_color d of None \<Rightarrow> js ''#000000'' | Some v \<Rightarrow> v"
    show ?thesis
    proof (cases "?text = []")
      case True
      then have "applyHeader h n s = (s, None)" using nh Some by (simp add: applyHeader_def)
      then show ?thesis using stepAt_refl [OF assms] by blast
    next
      case False
      from thrown_addText_pass [OF assms, of h ?text "alignX ?a" 20 "hfOptions ?a ?c"]
      obtain s' where s': "thrown (addText h ?text (alignX ?a) 20 (hfOptions ?a ?c) s) = (s', None)"
        "stepAt i s s'" by blast
      have "applyHeader h n s = (s', None)"
        using nh Some False s'(1) by (simp add: applyHeader_def)
      then show ?thesis using s'(2) by blast
    qed
  qed
qed

lemma applyFooter_pass:
  assumes "passAt i s"
  shows "\<exists>s'. applyFooter h (i + 1) s = (s', None) \<and> stepAt i s s' \<and> footerDone h (config s) i (pages s' ! i)"
proof (cases "onFooter (config s)")
  case (Some cb)
  then show ?thesis using runPlacements_pass [OF assms] by (simp add: applyFooter_def footerDone_def)
next
  case None
  note nh = None
  show ?thesis
  proof (cases "defaultFooter (config s)")
    case None
    then show ?thesis using nh assms by (simp add: applyFooter_def stepAt_refl footerDone_def)
  next
    case (Some d)
    show ?thesis
    proof (cases "footerText d (i + 1) = []")
      case True
      then show ?thesis using nh Some stepAt_refl [OF assms]
        by (simp add: applyFooter_def Let_def footerDone_def)
    next
      case False
      let ?a = "case df_align d of None \<Rightarrow> AlignCenter | Some v \<Rightarrow> v"
      let ?c = "case df_color d of None \<Rightarrow> js ''#000000'' | Some v \<Rightarrow> v"
      from thrown_addText_pass [OF assms, of h "footerText d (i + 1)" "alignX ?a" 820 "hfOptions ?a ?c"]
      obtain s' where s': "thrown (addText h (footerText d (i + 1)) (alignX ?a) 820 (hfOptions ?a ?c) s) = (s', None)"
        "stepAt i s s'"
        "content (pages s' ! i) = content (pages s ! i) @ [textContent h (footerText d (i + 1)) (alignX ?a) 820 (hfOptions ?a ?c)]"
        by blast
      have "applyFooter h (i + 1) s = (s', None)"
        using nh Some False s'(1) by (simp add: applyFooter_def Let_def)
      moreover have "footerDone h (config s) i (pages s' ! i)"
        using nh Some s'(3) by (simp add: footerDone_def footerFragment_def Let_def)
      ultimately show ?thesis using s'(2) by blast
    qed
  qed
qed

lemma setPage_pass:
  assumes "isApplyingHeaderFooter s" "i < length (pages s)"
  shows "passAt i (setPage (int i) s)" "frame (setPage (int i) s) = frame s"
    "pages (setPage (int i) s) = pages s"
  using assms by (simp_all add: setPage_def passAt_def frame_def)

lemma stepAt_config: "stepAt i s s' \<Longrightarrow> config s' = config s"
  by (simp add: stepAt_def frame_def)

lemma hfPage_pass:
  assumes "isApplyingHeaderFooter s" "i < length (pages s)"
  shows "\<exists>s'. hfPage h i s = (s', None) \<and> passAt i s' \<and> frame s' = frame s
            \<and> (\<forall>k. k \<noteq> i \<longrightarrow> pages s' ! k = pages s ! k)
            \<and> footerDone h (config s) i (pages s' ! i)"
proof -
  let ?s1 = "setPage (int i) s"
  note sp = setPage_pass [OF assms]
  from applyHeader_pass [OF sp(1)] obtain s2 where
    s2: "applyHeader h (i + 1) ?s1 = (s2, None)" "stepAt i ?s1 s2" by blast
  then have p2: "passAt i s2" by (simp add: stepAt_def)
  from applyFooter_pass [OF p2] obtain s3 where
    s3: "applyFooter h (i + 1) s2 = (s3, None)" "stepAt i s2 s3"
        "footerDone h (config s2) i (pages s3 ! i)" by blast
  have r: "hfPage h i s = (s3, None)"
    using s2(1) s3(1) by (simp add: hfPage_def)
  have st: "stepAt i ?s1 s3" using stepAt_trans [OF s2(2) s3(2)] .
  have c: "config s2 = config s" using stepAt_config [OF s2(2)] by (simp add: setPage_def)
  have p: "passAt i s3" using st by (simp add: stepAt_def)
  have f: "frame s3 = frame s" using st sp(2) by (simp add: stepAt_def)
  have o: "\<forall>k. k \<noteq> i \<longrightarrow> pages s3 ! k = pages s ! k"
    using st sp(3) by (simp add: stepAt_def)
  have d: "footerDone h (config s) i (pages s3 ! i)" using s3(3) c by simp
  show ?thesis using r p f o d by blast
qed

lemma hfLoop_total:
  assumes "isApplyingHeaderFooter s"
  shows "\<exists>s'. hfLoop h i s = Some (s', None) \<and> isApplyingHeaderFooter s' \<and> frame s' = frame s
            \<and> (\<forall>k. k < i \<longrightarrow> pages s' ! k = pages s ! k)
            \<and> (\<forall>k. i \<le> k \<and> k < length (pages s) \<longrightarrow> footerDone h (config s) k (pages s' ! k))"
  using assms
proof (induction "length (pages s) - i" arbitrary: i s)
  case 0
  then have "\<not> i < length (pages s)" by simp
  then show ?case using "0.prems" by (subst hfLoop.simps) auto
next
  case (Suc n)
  then have lt: "i < length (pages s)" by simp
  from hfPage_pass [OF Suc.prems lt] obtain s1 where
    s1: "hfPage h i s = (s1, None)" "passAt i s1" "frame s1 = frame s"
        "\<forall>k. k \<noteq> i \<longrightarrow> pages s1 ! k = pages s ! k"
        "footerDone h (config s) i (pages s1 ! i)" by blast
  have len: "length (pages s1) = length (pages s)" using frame_length [OF s1(3)] .
  have cfg: "config s1 = config s" using s1(3) by (simp add: frame_def)
  have f1: "isApplyingHeaderFooter s1" using s1(2) by (simp add: passAt_def)
  have "n = length (pages s1) - Suc i" using Suc.hyps(2) len by simp
  from Suc.hyps(1) [OF this f1] obtain s' where
    s': "hfLoop h (Suc i) s1 = Some (s', None)" "isApplyingHeaderFooter s'" "frame s' = frame s1"
        "\<forall>k. k < Suc i \<longrightarrow> pages s' ! k = pages s1 ! k"
        "\<forall>k. Suc i \<le> k \<and> k < length (pages s1) \<longrightarrow> footerDone h (config s1) k (pages s' ! k)"
    by blast
  have r: "hfLoop h i s = Some (s', None)"
    using lt s1(1) s'(1) by (subst hfLoop.simps) simp
  have f: "frame s' = frame s" using s'(3) s1(3) by simp
  have o: "\<forall>k. k < i \<longrightarrow> pages s' ! k = pages s ! k"
    using s'(4) s1(4) by auto
  have d: "\<forall>k. i \<le> k \<and> k < length (pages s) \<longrightarrow> footerDone h (config s) k (pages s' ! k)"
  proof (intro allI impI)
    fix k assume k: "i \<le> k \<and> k < length (pages s)"
    show "footerDone h (config s) k (pages s' ! k)"
    proof (cases "k = i")
      case True
      then show ?thesis using s'(4) s1(5) by simp
    next
      case False
      then show ?thesis using k s'(5) len cfg by simp
    qed
  qed
  show ?case using r s'(2) f o d by blast
qed

lemma applyHeaderFooter_total:
  "\<exists>s'. applyHeaderFooter h s = Some (s', None)
       \<and> frame s' = frame s \<and> currentPageIndex s' = currentPageIndex s
       \<and> \<not> isApplyingHeaderFooter s'
       \<and> (\<forall>k. k < length (pages s) \<longrightarrow> footerDone h (config s) k (pages s' ! k))"
proof -
  define s0 where "s0 = s\<lparr>isApplyingHeaderFooter := True\<rparr>"
  have s0: "isApplyingHeaderFooter s0" "pages s0 = pages s" "config s0 = config s"
    "currentPageIndex s0 = currentPageIndex s"
    by (simp_all add: s0_def)
  from hfLoop_total [OF s0(1), of h 0] obtain s1 where
    s1: "hfLoop h 0 s0 = Some (s1, None)" "frame s1 = frame s0"
        "\<forall>k. 0 \<le> k \<and> k < length (pages s0) \<longrightarrow> footerDone h (config s0) k (pages s1 ! k)"
    by metis
  define s' where "s' = s1\<lparr>currentPageIndex := currentPageIndex s0, isApplyingHeaderFooter := False\<rparr>"
  have r: "applyHeaderFooter h s = Some (s', None)"
    unfolding applyHeaderFooter_def Let_def s0_def [symmetric] s'_def by (simp add: s1(1))
  have "frame s0 = frame s"
    by (simp add: frame_def s0_def)
  then have f: "frame s' = frame s" using s1(2) by (simp add: frame_def s'_def)
  have n: "\<not> isApplyingHeaderFooter s'" by (simp add: s'_def)
  have c: "currentPageIndex s' = currentPageIndex s" by (simp add: s'_def s0(4))
  have d: "\<forall>k. k < length (pages s) \<longrightarrow> footerDone h (config s) k (pages s' ! k)"
    using s1(3) by (simp add: s'_def s0)
  show ?thesis by (intro exI [of _ s'] conjI) (rule r f c n d)+
qed

lemma pass_unconfigured:
  assumes "config s = emptyConfig" "\<not> isApplyingHeaderFooter s"
  shows "applyHeaderFooter h s = Some (s, None)"
proof -
  have p: "hfPage h i t = (setPage (int i) t, None)" if "config t = emptyConfig" for i t
    using that by (simp add: hfPage_def applyHeader_def applyFooter_def emptyConfig_def setPage_def)
  have l: "\<exists>j. hfLoop h i t = Some (t\<lparr>currentPageIndex := j\<rparr>, None)" if "config t = emptyConfig" for i t
    using that
  proof (induction "length (pages t) - i" arbitrary: i t)
    case 0
    then have "hfLoop h i t = Some (t, None)" by (subst hfLoop.simps) simp
    then have "hfLoop h i t = Some (t\<lparr>currentPageIndex := currentPageIndex t\<rparr>, None)" by simp
    then show ?case by blast
  next
    case (Suc n)
    then have lt: "i < length (pages t)" by simp
    have s: "setPage (int i) t = t\<lparr>currentPageIndex := int i\<rparr>" using lt by (simp add: setPage_def)
    have "n = length (pages (t\<lparr>currentPageIndex := int i\<rparr>)) - Suc i" using Suc.hyps(2) by simp
    from Suc.hyps(1) [OF this] Suc.prems obtain j where
      "hfLoop h (Suc i) (t\<lparr>currentPageIndex := int i\<rparr>) = Some (t\<lparr>currentPageIndex := int i, currentPageIndex := j\<rparr>, None)"
      by auto
    then have "hfLoop h i t = Some (t\<lparr>currentPageIndex := j\<rparr>, None)"
      using lt p [OF Suc.prems] s by (subst hfLoop.simps) simp
    then show ?case by blast
  qed
  from l [of "s\<lparr>isApplyingHeaderFooter := True\<rparr>" 0] assms(1) obtain j where
    "hfLoop h 0 (s\<lparr>isApplyingHeaderFooter := True\<rparr>) = Some (s\<lparr>isApplyingHeaderFooter := True, currentPageIndex := j\<rparr>, None)"
    by auto
  then show ?thesis using assms(2) by (simp add: applyHeaderFooter_def)
qed

section \<open>Properties of the pass with callbacks that call the document\<close>

lemma runCalls_pass:
  assumes "list_all placing cs" "passAt i s"
  shows "\<exists>s'. runCalls h out cs (s, m) = Some ((s', m), None) \<and> stepAt i s s'"
  using assms
proof (induction cs arbitrary: s)
  case Nil
  then show ?case by (simp add: stepAt_refl)
next
  case (Cons c cs)
  then have rest: "list_all placing cs" by simp
  show ?case
  proof (cases c)
    case (CallText t x y opts)
    let ?s1 = "fst (addText h t x y opts s)"
    have a: "stepAt i s ?s1" "snd (addText h t x y opts s) = Inr y"
      using addText_stepAt [OF Cons.prems(2)] by auto
    then have "passAt i ?s1" by (simp add: stepAt_def)
    from Cons.IH [OF rest this] obtain s' where
      s': "runCalls h out cs (?s1, m) = Some ((s', m), None)" "stepAt i ?s1 s'"
      by blast
    have "runCalls h out (c # cs) (s, m) = Some ((s', m), None)"
      using a(2) s'(1) by (cases "addText h t x y opts s") (simp add: CallText)
    then show ?thesis using stepAt_trans [OF a(1) s'(2)] by blast
  next
    case (CallImage d x y opts)
    from Cons.IH [OF rest Cons.prems(2)] obtain s' where
      s': "runCalls h out cs (s, m) = Some ((s', m), None)" "stepAt i s s'"
      by blast
    then show ?thesis by (auto simp: CallImage addImageBegin_pass [OF Cons.prems(2)])
  next
    case CallPage
    then show ?thesis using Cons.prems(1) by (simp add: placing_def)
  next
    case CallOutput
    then show ?thesis using Cons.prems(1) by (simp add: placing_def)
  next
    case (CallThrow e)
    then show ?thesis using Cons.prems(1) by (simp add: placing_def)
  qed
qed

lemma callScript_pass:
  assumes "placesOnly (Some f)" "passAt i s"
  shows "\<exists>s' m'. callScript h out f n (s, m) = Some ((s', m'), None) \<and> stepAt i s s'"
proof -
  obtain cs m1 where c: "f m n = (cs, m1)" by (cases "f m n")
  have "list_all placing (fst (f m n))" using assms(1) by (simp add: placesOnly_def)
  then have "list_all placing cs" using c by simp
  from runCalls_pass [OF this assms(2), of h out m1] obtain s' where
    "runCalls h out cs (s, m1) = Some ((s', m1), None)" "stepAt i s s'" by blast
  then show ?thesis using c by (auto simp: callScript_def)
qed

lemma applyHeaderWith_pass:
  assumes "placesOnly (headerScript cbs)" "passAt i s"
  shows "\<exists>s' m'. applyHeaderWith h cbs out n (s, m) = Some ((s', m'), None) \<and> stepAt i s s'"
proof (cases "headerScript cbs")
  case None
  from applyHeader_pass [OF assms(2), of h n] obtain s' where
    "applyHeader h n s = (s', None)" "stepAt i s s'" by blast
  then show ?thesis using None by (auto simp: applyHeaderWith_def)
next
  case (Some f)
  then have "placesOnly (Some f)" using assms(1) by simp
  from callScript_pass [OF this assms(2), of h out n m] show ?thesis
    using Some by (simp add: applyHeaderWith_def)
qed

lemma applyFooterWith_pass:
  assumes "placesOnly (footerScript cbs)" "passAt i s"
  shows "\<exists>s' m'. applyFooterWith h cbs out (i + 1) (s, m) = Some ((s', m'), None) \<and> stepAt i s s'
           \<and> (footerScript cbs = None \<longrightarrow> footerDone h (config s) i (pages s' ! i))"
proof (cases "footerScript cbs")
  case None
  from applyFooter_pass [OF assms(2), of h] obtain s' where
    "applyFooter h (i + 1) s = (s', None)" "stepAt i s s'" "footerDone h (config s) i (pages s' ! i)"
    by blast
  then show ?thesis using None by (auto simp: applyFooterWith_def)
next
  case (Some f)
  then have "placesOnly (Some f)" using assms(1) by simp
  from callScript_pass [OF this assms(2), of h out "i + 1" m] show ?thesis
    using Some by (simp add: applyFooterWith_def)
qed

lemma hfPageWith_pass:
  assumes "placesOnly (headerScript cbs)" "placesOnly (footerScript cbs)"
    "isApplyingHeaderFooter s" "i < length (pages s)"
  shows "\<exists>s' m'. hfPageWith h cbs out i (s, m) = Some ((s', m'), None) \<and> passAt i s' \<and> frame s' = frame s
            \<and> (\<forall>k. k \<noteq> i \<longrightarrow> pages s' ! k = pages s ! k)
            \<and> (footerScript cbs = None \<longrightarrow> footerDone h (config s) i (pages s' ! i))"
proof -
  let ?s1 = "setPage (int i) s"
  note sp = setPage_pass [OF assms(3,4)]
  from applyHeaderWith_pass [OF assms(1) sp(1), of h out "i + 1" m] obtain s2 m2 where
    s2: "applyHeaderWith h cbs out (i + 1) (?s1, m) = Some ((s2, m2), None)" "stepAt i ?s1 s2" by blast
  then have p2: "passAt i s2" by (simp add: stepAt_def)
  from applyFooterWith_pass [OF assms(2) p2, of h out m2] obtain s3 m3 where
    s3: "applyFooterWith h cbs out (i + 1) (s2, m2) = Some ((s3, m3), None)" "stepAt i s2 s3"
        "footerScript cbs = None \<longrightarrow> footerDone h (config s2) i (pages s3 ! i)" by (elim exE conjE) (rule that)
  have r: "hfPageWith h cbs out i (s, m) = Some ((s3, m3), None)"
    using s2(1) s3(1) by (simp add: hfPageWith_def)
  have st: "stepAt i ?s1 s3" using stepAt_trans [OF s2(2) s3(2)] .
  have c: "config s2 = config s" using stepAt_config [OF s2(2)] by (simp add: setPage_def)
  have p: "passAt i s3" using st by (simp add: stepAt_def)
  have f: "frame s3 = frame s" using st sp(2) by (simp add: stepAt_def)
  have o: "\<forall>k. k \<noteq> i \<longrightarrow> pages s3 ! k = pages s ! k"
    using st sp(3) by (simp add: stepAt_def)
  have d: "footerScript cbs = None \<longrightarrow> footerDone h (config s) i (pages s3 ! i)" using s3(3) c by simp
  show ?thesis by (intro exI [of _ s3] exI [of _ m3] conjI) (rule r p f o d)+
qed

lemma hfLoopWith_total:
  assumes "placesOnly (headerScript cbs)" "placesOnly (footerScript cbs)"
    "isApplyingHeaderFooter s" "length (pages s) - i < fuel"
  shows "\<exists>s' m'. hfLoopWith fuel h cbs out i (s, m) = Some ((s', m'), None)
            \<and> isApplyingHeaderFooter s' \<and> frame s' = frame s
            \<and> (\<forall>k. k < i \<longrightarrow> pages s' ! k = pages s ! k)
            \<and> (footerScript cbs = None \<longrightarrow>
                 (\<forall>k. i \<le> k \<and> k < length (pages s) \<longrightarrow> footerDone h (config s) k (pages s' ! k)))"
  using assms(3,4)
proof (induction fuel arbitrary: i s m)
  case 0
  then show ?case by simp
next
  case (Suc fuel)
  show ?case
  proof (cases "i < length (pages s)")
    case False
    then show ?thesis using Suc.prems(1) by auto
  next
    case True
    note lt = True
    from hfPageWith_pass [OF assms(1,2) Suc.prems(1) lt, of h out m] obtain s1 m1 where
      s1: "hfPageWith h cbs out i (s, m) = Some ((s1, m1), None)" "passAt i s1" "frame s1 = frame s"
          "\<forall>k. k \<noteq> i \<longrightarrow> pages s1 ! k = pages s ! k"
          "footerScript cbs = None \<longrightarrow> footerDone h (config s) i (pages s1 ! i)" by (elim exE conjE) (rule that)
    have len: "length (pages s1) = length (pages s)" using frame_length [OF s1(3)] .
    have cfg: "config s1 = config s" using s1(3) by (simp add: frame_def)
    have f1: "isApplyingHeaderFooter s1" using s1(2) by (simp add: passAt_def)
    have "length (pages s1) - Suc i < fuel" using Suc.prems(2) len lt by simp
    from Suc.IH [OF f1 this, of m1] obtain s' m' where
      s': "hfLoopWith fuel h cbs out (Suc i) (s1, m1) = Some ((s', m'), None)"
          "isApplyingHeaderFooter s'" "frame s' = frame s1"
          "\<forall>k. k < Suc i \<longrightarrow> pages s' ! k = pages s1 ! k"
          "footerScript cbs = None \<longrightarrow>
             (\<forall>k. Suc i \<le> k \<and> k < length (pages s1) \<longrightarrow> footerDone h (config s1) k (pages s' ! k))"
      by (elim exE conjE) (rule that)
    have r: "hfLoopWith (Suc fuel) h cbs out i (s, m) = Some ((s', m'), None)"
      using lt s1(1) s'(1) by simp
    have f: "frame s' = frame s" using s'(3) s1(3) by simp
    have o: "\<forall>k. k < i \<longrightarrow> pages s' ! k = pages s ! k"
      using s'(4) s1(4) by auto
    have d: "footerScript cbs = None \<longrightarrow>
        (\<forall>k. i \<le> k \<and> k < length (pages s) \<longrightarrow> footerDone h (config s) k (pages s' ! k))"
    proof (intro allI impI)
      fix k assume n: "footerScript cbs = None" and k: "i \<le> k \<and> k < length (pages s)"
      show "footerDone h (config s) k (pages s' ! k)"
      proof (cases "k = i")
        case True
        then show ?thesis using s'(4) s1(5) n by simp
      next
        case False
        then show ?thesis using k s'(5) n len cfg by simp
      qed
    qed
    show ?thesis by (intro exI [of _ s'] exI [of _ m'] conjI) (rule r s'(2) f o d)+
  qed
qed

lemma applyHeaderFooterWith_total:
  assumes "placesOnly (headerScript cbs)" "placesOnly (footerScript cbs)" "length (pages s) < fuel"
  shows "\<exists>s' m'. applyHeaderFooterWith fuel h cbs out (s, m) = Some ((s', m'), None)
       \<and> frame s' = frame s \<and> currentPageIndex s' = currentPageIndex s
       \<and> \<not> isApplyingHeaderFooter s'
       \<and> (footerScript cbs = None \<longrightarrow>
            (\<forall>k. k < length (pages s) \<longrightarrow> footerDone h (config s) k (pages s' ! k)))"
proof -
  define s0 where "s0 = s\<lparr>isApplyingHeaderFooter := True\<rparr>"
  have s0: "isApplyingHeaderFooter s0" "pages s0 = pages s" "config s0 = config s"
    "currentPageIndex s0 = currentPageIndex s"
    by (simp_all add: s0_def)
  have fu: "length (pages s0) - 0 < fuel" using assms(3) s0(2) by simp
  from hfLoopWith_total [OF assms(1,2) s0(1) fu, of h out m] obtain s1 m1 where
    s1: "hfLoopWith fuel h cbs out 0 (s0, m) = Some ((s1, m1), None)" "frame s1 = frame s0"
        "footerScript cbs = None \<longrightarrow>
           (\<forall>k. 0 \<le> k \<and> k < length (pages s0) \<longrightarrow> footerDone h (config s0) k (pages s1 ! k))"
    by (elim exE conjE) (rule that)
  define s' where "s' = s1\<lparr>currentPageIndex := currentPageIndex s0, isApplyingHeaderFooter := False\<rparr>"
  have r: "applyHeaderFooterWith fuel h cbs out (s, m) = Some ((s', m1), None)"
    unfolding applyHeaderFooterWith_def Let_def fst_conv snd_conv s0_def [symmetric] s'_def
    by (simp add: s1(1))
  have "frame s0 = frame s"
    by (simp add: frame_def s0_def)
  then have f: "frame s' = frame s" using s1(2) by (simp add: frame_def s'_def)
  have n: "\<not> isApplyingHeaderFooter s'" by (simp add: s'_def)
  have c: "currentPageIndex s' = currentPageIndex s" by (simp add: s'_def s0(4))
  have d: "footerScript cbs = None \<longrightarrow>
      (\<forall>k. k < length (pages s) \<longrightarrow> footerDone h (config s) k (pages s' ! k))"
    using s1(3) by (simp add: s'_def s0)
  show ?thesis by (intro exI [of _ s'] exI [of _ m1] conjI) (rule r f c n d)+
qed


lemma tallBands_fields [simp]:
  "isApplyingHeaderFooter (constructor tallBandsConfig) = False"
  "footerHeight (constructor tallBandsConfig) = 200"
  "headerHeight (constructor tallBandsConfig) = 200"
  "length (pages (constructor tallBandsConfig)) = 1"
  by (simp_all add: constructor_def initial_def tallBandsConfig_def emptyConfig_def orZero_def
      MAX_HEADER_HEIGHT_def MAX_FOOTER_HEIGHT_def)



text \<open>
  On the other side of the boundary the rule follows the doubles too: the exact sum of
  \<open>829.89\<close> and \<open>12.000000000000028\<close> exceeds \<open>PAGE_HEIGHT\<close>, their sum as doubles is
  \<open>PAGE_HEIGHT\<close>, and no page is appended.
\<close>

lemma below_boundary_values:
  "double 829.89 = 7299789638200197 / 8796093022208"
  "double 12.000000000000028 = 422212465065985 / 35184372088832"
   apply (subst double_eval [where k = 9], simp_all add: pow2_def roundEven_def)
  apply (subst double_eval [where k = 3], simp_all add: pow2_def roundEven_def)
  done

lemma below_boundary_sum:
  "double 829.89 + double 12.000000000000028 > PAGE_HEIGHT"
  "double (double 829.89 + double 12.000000000000028) = PAGE_HEIGHT"
  unfolding below_boundary_values PAGE_HEIGHT_value
   apply simp
  apply (subst double_eval [where k = 9], simp_all add: pow2_def roundEven_def)
  done

lemma addText_below_boundary:
  "length (pages (fst (addText sampleHost (js ''A'') 20 (double 829.89) fineText (constructor emptyConfig)))) = 1"
  "snd (addText sampleHost (js ''A'') 20 (double 829.89) fineText (constructor emptyConfig)) = Inr (double 829.89)"
proof -
  have s: "sizeOf fineText = double 12.000000000000028" by (simp add: sizeOf_def fineText_def)
  have f: "footerHeight (constructor emptyConfig) = 0" "length (pages (constructor emptyConfig)) = 1"
    "currentPageIndex (constructor emptyConfig) = 0"
    by (simp_all add: constructor_def initial_def emptyConfig_def orZero_def MAX_FOOTER_HEIGHT_def)
  have "\<not> double (double 829.89 + sizeOf fineText) > double (PAGE_HEIGHT - footerHeight (constructor emptyConfig))"
    unfolding s f diff_zero double_PAGE_HEIGHT below_boundary_sum by simp
  then have e: "addText sampleHost (js ''A'') 20 (double 829.89) fineText (constructor emptyConfig) =
      (case arrayAt (pages (constructor emptyConfig)) (currentPageIndex (constructor emptyConfig)) of
         None \<Rightarrow> (constructor emptyConfig, Inl TypeError)
       | Some p \<Rightarrow> ((constructor emptyConfig)\<lparr>pages := (pages (constructor emptyConfig))
            [nat (currentPageIndex (constructor emptyConfig)) := placedText sampleHost (js ''A'') 20 (double 829.89) fineText p]\<rparr>,
           Inr (double 829.89)))"
    by (intro addText_plain_eq) simp
  show "length (pages (fst (addText sampleHost (js ''A'') 20 (double 829.89) fineText (constructor emptyConfig)))) = 1"
    and "snd (addText sampleHost (js ''A'') 20 (double 829.89) fineText (constructor emptyConfig)) = Inr (double 829.89)"
    unfolding e by (simp_all add: f arrayAt_def)
qed

theorem addImage_rejected_witness:
  "processImage sampleHost [] = Inl ImageRejected
   \<and> snd (addImage sampleHost [] 20 700 squareImage (constructor tallBandsConfig)) = Inl ImageRejected
   \<and> images (fst (addImage sampleHost [] 20 700 squareImage (constructor tallBandsConfig))) = images (constructor tallBandsConfig)"
proof -
  have a: "processImage sampleHost [] = Inl ImageRejected" by (simp add: sampleHost_def)
  show ?thesis using addImage_rejected [OF a, of 20 700 squareImage "constructor tallBandsConfig"] a
    by simp
qed

lemma addText_flag_length:
  assumes "isApplyingHeaderFooter s"
  shows "length (pages (fst (addText h text x y opts s))) = length (pages s)"
  using assms by (simp add: addText_plain_eq split: option.splits)

lemma addImage_flag_length:
  assumes "isApplyingHeaderFooter s"
  shows "length (pages (fst (addImage h imageData x y opts s))) = length (pages s)"
proof -
  have "addImageBegin y opts s = (s, y)" using assms by (simp add: addImageBegin_plain_eq)
  then show ?thesis
    by (simp add: addImage_def addImageCommit_eq split: sum.splits option.splits)
qed

text \<open>
  Claim C4, as amended. While the guard of the pass is set, \<open>addText\<close> and \<open>addImage\<close>
  leave the number of pages unchanged, whatever the reserved heights. When the header and
  the footer callback, if there are any, do nothing but place text and images, the pass
  ends without an exception, given one unit of fuel for each test of its loop condition;
  it ends with as many pages as before and with the guard cleared. This holds from any
  document, whatever the configuration.
\<close>

theorem pass_never_paginates:
  "(isApplyingHeaderFooter s \<longrightarrow>
       length (pages (fst (addText h text x y topts s))) = length (pages s)
     \<and> length (pages (fst (addImage h imageData x y iopts s))) = length (pages s))
   \<and> (placesOnly (headerScript cbs) \<and> placesOnly (footerScript cbs) \<and> length (pages s) < fuel \<longrightarrow>
        (\<exists>s' m'. applyHeaderFooterWith fuel h cbs out (s, m) = Some ((s', m'), None)
           \<and> length (pages s') = length (pages s) \<and> \<not> isApplyingHeaderFooter s'))"
proof -
  have "\<exists>s' m'. applyHeaderFooterWith fuel h cbs out (s, m) = Some ((s', m'), None)
           \<and> length (pages s') = length (pages s) \<and> \<not> isApplyingHeaderFooter s'"
    if p: "placesOnly (headerScript cbs)" "placesOnly (footerScript cbs)" "length (pages s) < fuel"
  proof -
    from applyHeaderFooterWith_total [OF p, of h out m] obtain s' m' where
      r: "applyHeaderFooterWith fuel h cbs out (s, m) = Some ((s', m'), None)"
      and f: "frame s' = frame s" and n: "\<not> isApplyingHeaderFooter s'"
      by (elim exE conjE) (rule that)
    have l: "length (pages s') = length (pages s)" using frame_length [OF f] .
    show ?thesis by (intro exI [of _ s'] exI [of _ m'] conjI) (rule r l n)+
  qed
  then show ?thesis using addText_flag_length addImage_flag_length by simp
qed


lemma replaceChar_absent: "c \<notin> set s \<Longrightarrow> replaceChar c rep s = s"
  by (induction s) (auto simp: replaceChar_def)

lemma escapeText_plain:
  assumes "0x5C \<notin> set s" "0x28 \<notin> set s" "0x29 \<notin> set s"
  shows "escapeText s = s"
  using assms by (simp add: escapeText_def replaceChar_absent)

lemma showNat_plain: "c \<in> {0x5C, 0x28, 0x29} \<Longrightarrow> c \<notin> set (showNat n)"
  using showNat_digits [of c n] by auto

lemma escapeText_Page: "escapeText (js ''Page '' @ showNat n) = js ''Page '' @ showNat n"
  by (rule escapeText_plain) (simp_all add: showNat_plain, simp_all add: js_def)

lemma textContent_tail:
  "\<exists>pre. textContent h text x y opts = pre @ js ''('' @ escapeText text @ js '') Tj'' @ nl @ js ''ET'' @ nl"
  unfolding textContent_def Let_def by (metis append.assoc)

lemma footerText_numbers:
  assumes "df_showPageNumbers d \<noteq> Some False"
  shows "footerText d p = (if footerLiteral d = [] then js ''Page '' @ showNat p
                           else footerLiteral d @ js '' - Page '' @ showNat p)"
    and "footerText d p \<noteq> []"
  using assms
  by (auto simp: footerText_def footerLiteral_def Let_def showNat_nonempty split: option.splits)

lemma default_footer_pass:
  assumes "footerScript cbs = None" "onFooter (config s) = None" "placesOnly (headerScript cbs)"
    "defaultFooter (config s) = Some d" "df_showPageNumbers d \<noteq> Some False"
    "length (pages s) < fuel"
  shows "\<exists>s' m'. applyHeaderFooterWith fuel h cbs out (s, m) = Some ((s', m'), None)
           \<and> length (pages s') = length (pages s)
           \<and> (\<forall>p. 1 \<le> p \<and> p \<le> length (pages s) \<longrightarrow>
                 content (pages s' ! (p - 1)) \<noteq> []
                 \<and> last (content (pages s' ! (p - 1))) = footerFragment h d p)"
proof -
  have pf: "placesOnly (footerScript cbs)" using assms(1) by (simp add: placesOnly_def)
  from applyHeaderFooterWith_total [OF assms(3) pf assms(6), of h out m] obtain s' m' where
    r: "applyHeaderFooterWith fuel h cbs out (s, m) = Some ((s', m'), None)" and f: "frame s' = frame s"
    and d: "footerScript cbs = None \<longrightarrow>
              (\<forall>k. k < length (pages s) \<longrightarrow> footerDone h (config s) k (pages s' ! k))"
    by (elim exE conjE) (rule that)
  have l: "length (pages s') = length (pages s)" using frame_length [OF f] .
  have e: "\<forall>p. 1 \<le> p \<and> p \<le> length (pages s) \<longrightarrow>
                 content (pages s' ! (p - 1)) \<noteq> []
                 \<and> last (content (pages s' ! (p - 1))) = footerFragment h d p"
  proof (intro allI impI)
    fix p assume p: "1 \<le> p \<and> p \<le> length (pages s)"
    then have "p - 1 < length (pages s)" "p - 1 + 1 = p" by auto
    then have "footerDone h (config s) (p - 1) (pages s' ! (p - 1))" using d assms(1) by blast
    then show "content (pages s' ! (p - 1)) \<noteq> []
                 \<and> last (content (pages s' ! (p - 1))) = footerFragment h d p"
      using assms(2,4) footerText_numbers(2) [OF assms(5), of p] \<open>p - 1 + 1 = p\<close>
      by (simp add: footerDone_def)
  qed
  show ?thesis by (intro exI [of _ s'] exI [of _ m'] conjI) (rule r l e)+
qed

lemma footerFragment_shows:
  "\<exists>pre. footerFragment h d p = pre @ js ''('' @ escapeText (footerText d p) @ js '') Tj'' @ nl @ js ''ET'' @ nl"
  unfolding footerFragment_def Let_def by (rule textContent_tail)

text \<open>
  Claim C7, as amended. When no footer callback is configured, the header callback, if
  there is one, does nothing but place text and images, and the default footer asks for
  page numbers, the pass ends and every page \<open>p\<close>, counted from 1, carries as its last
  content fragment the footer placed by \<open>addText\<close> at \<open>y = 820\<close>, whatever the document
  holds: its text is \<open>Page p\<close> when there is no literal text, shown in the content
  stream as \<open>(Page p) Tj\<close>, and the literal text followed by \<open> - Page p\<close> otherwise.
\<close>

theorem footer_page_numbers:
  assumes "footerScript cbs = None" "onFooter (config s) = None" "placesOnly (headerScript cbs)"
    "defaultFooter (config s) = Some d" "df_showPageNumbers d = Some True"
    "length (pages s) < fuel"
  shows "\<exists>s' m'. applyHeaderFooterWith fuel h cbs out (s, m) = Some ((s', m'), None)
           \<and> length (pages s') = length (pages s)
           \<and> (\<forall>p. 1 \<le> p \<and> p \<le> length (pages s) \<longrightarrow>
                 content (pages s' ! (p - 1)) \<noteq> []
                 \<and> last (content (pages s' ! (p - 1))) = footerFragment h d p
                 \<and> (footerLiteral d = [] \<longrightarrow> footerText d p = js ''Page '' @ showNat p
                      \<and> (\<exists>pre. footerFragment h d p =
                            pre @ js ''(Page '' @ showNat p @ js '') Tj'' @ nl @ js ''ET'' @ nl))
                 \<and> (footerLiteral d \<noteq> [] \<longrightarrow>
                      footerText d p = footerLiteral d @ js '' - Page '' @ showNat p))"
proof -
  have n: "df_showPageNumbers d \<noteq> Some False" using assms(5) by simp
  from default_footer_pass [OF assms(1,2,3,4) n assms(6), of h out m] obtain s' m' where
    s': "applyHeaderFooterWith fuel h cbs out (s, m) = Some ((s', m'), None)"
      "length (pages s') = length (pages s)"
      "\<forall>p. 1 \<le> p \<and> p \<le> length (pages s) \<longrightarrow>
                 content (pages s' ! (p - 1)) \<noteq> []
                 \<and> last (content (pages s' ! (p - 1))) = footerFragment h d p"
    by (elim exE conjE) (rule that)
  have t: "\<And>p. footerLiteral d = [] \<Longrightarrow> footerText d p = js ''Page '' @ showNat p"
    "\<And>p. footerLiteral d \<noteq> [] \<Longrightarrow> footerText d p = footerLiteral d @ js '' - Page '' @ showNat p"
    using footerText_numbers(1) [OF n] by simp_all
  have e: "\<And>p. footerLiteral d = [] \<Longrightarrow>
      \<exists>pre. footerFragment h d p = pre @ js ''(Page '' @ showNat p @ js '') Tj'' @ nl @ js ''ET'' @ nl"
  proof -
    fix p assume "footerLiteral d = []"
    then have "escapeText (footerText d p) = js ''Page '' @ showNat p"
      using t(1) escapeText_Page by simp
    then show "\<exists>pre. footerFragment h d p = pre @ js ''(Page '' @ showNat p @ js '') Tj'' @ nl @ js ''ET'' @ nl"
      using footerFragment_shows [of h d p] by (simp add: js_def)
  qed
  show ?thesis
    by (rule exI [of _ s'], rule exI [of _ m']) (use s' t e in simp)
qed

lemma twoPages_fields [simp]:
  "config (twoPages cfg) = cfg"
  "length (pages (twoPages cfg)) = 2"
  by (simp_all add: twoPages_def runCommands_def runCommand_def constructor_def initial_def)

lemma titleHeader_places:
  "footerScript titleHeader = None" "placesOnly (headerScript titleHeader)"
  "placesOnly (footerScript titleHeader)"
  by (simp_all add: titleHeader_def placesOnly_def titleScript_def placing_def)

theorem footer_page_numbers_witness:
  "footerScript titleHeader = None
   \<and> onFooter (config (twoPages tallBandsConfig)) = None
   \<and> placesOnly (headerScript titleHeader)
   \<and> defaultFooter (config (twoPages tallBandsConfig)) = Some pageNumberFooter
   \<and> df_showPageNumbers pageNumberFooter = Some True
   \<and> length (pages (twoPages tallBandsConfig)) < 3
   \<and> footerText pageNumberFooter 2 = js ''Page 2''
   \<and> (\<exists>s' m'. applyHeaderFooterWith 3 sampleHost titleHeader (reenter 2 sampleHost titleHeader)
           (twoPages tallBandsConfig, 0) = Some ((s', m'), None)
         \<and> length (pages s') = 2
         \<and> last (content (pages s' ! 0)) = footerFragment sampleHost pageNumberFooter 1
         \<and> last (content (pages s' ! 1)) = footerFragment sampleHost pageNumberFooter 2)"
proof -
  have a: "onFooter (config (twoPages tallBandsConfig)) = None"
    and b: "defaultFooter (config (twoPages tallBandsConfig)) = Some pageNumberFooter"
    by (simp_all add: tallBandsConfig_def emptyConfig_def)
  have c: "df_showPageNumbers pageNumberFooter = Some True"
    and l: "footerLiteral pageNumberFooter = []"
    by (simp_all add: pageNumberFooter_def footerLiteral_def)
  have fu: "length (pages (twoPages tallBandsConfig)) < 3" by simp
  have n: "showNat 2 = js ''2''" by (simp add: showNat.simps js_def digitChar_def)
  from footer_page_numbers [OF titleHeader_places(1) a titleHeader_places(2) b c fu,
      of sampleHost "reenter 2 sampleHost titleHeader" 0]
  obtain s' m' where
    s': "applyHeaderFooterWith 3 sampleHost titleHeader (reenter 2 sampleHost titleHeader)
           (twoPages tallBandsConfig, 0) = Some ((s', m'), None)"
      "length (pages s') = length (pages (twoPages tallBandsConfig))"
      "\<forall>p. 1 \<le> p \<and> p \<le> length (pages (twoPages tallBandsConfig)) \<longrightarrow>
                 content (pages s' ! (p - 1)) \<noteq> []
                 \<and> last (content (pages s' ! (p - 1))) = footerFragment sampleHost pageNumberFooter p
                 \<and> (footerLiteral pageNumberFooter = [] \<longrightarrow> footerText pageNumberFooter p = js ''Page '' @ showNat p
                      \<and> (\<exists>pre. footerFragment sampleHost pageNumberFooter p =
                            pre @ js ''(Page '' @ showNat p @ js '') Tj'' @ nl @ js ''ET'' @ nl))
                 \<and> (footerLiteral pageNumberFooter \<noteq> [] \<longrightarrow>
                      footerText pageNumberFooter p = footerLiteral pageNumberFooter @ js '' - Page '' @ showNat p)"
    by (elim exE conjE) (rule that)
  have p1: "last (content (pages s' ! 0)) = footerFragment sampleHost pageNumberFooter 1"
    using s'(3) [rule_format, of 1] by simp
  have p2: "last (content (pages s' ! 1)) = footerFragment sampleHost pageNumberFooter 2"
    "footerText pageNumberFooter 2 = js ''Page 2''"
    using s'(3) [rule_format, of 2] l n by (simp_all add: js_def)
  have l2: "length (pages s') = 2" using s'(2) by simp
  have "\<exists>s' m'. applyHeaderFooterWith 3 sampleHost titleHeader (reenter 2 sampleHost titleHeader)
           (twoPages tallBandsConfig, 0) = Some ((s', m'), None)
         \<and> length (pages s') = 2
         \<and> last (content (pages s' ! 0)) = footerFragment sampleHost pageNumberFooter 1
         \<and> last (content (pages s' ! 1)) = footerFragment sampleHost pageNumberFooter 2"
    by (intro exI [of _ s'] exI [of _ m'] conjI) (rule s'(1) l2 p1 p2(1))+
  then show ?thesis using titleHeader_places a b c fu p2(2) by simp
qed


lemma footerText_suppressed:
  "(footerText (d\<lparr>df_showPageNumbers := b\<rparr>) p = footerLiteral d) = (b = Some False)"
proof (cases "b = Some False")
  case True
  then show ?thesis by (simp add: footerText_def footerLiteral_def)
next
  case False
  then have n: "df_showPageNumbers (d\<lparr>df_showPageNumbers := b\<rparr>) \<noteq> Some False" by simp
  have l: "footerLiteral (d\<lparr>df_showPageNumbers := b\<rparr>) = footerLiteral d"
    by (simp add: footerLiteral_def)
  have "js '' - Page '' @ showNat p \<noteq> []" "js ''Page '' @ showNat p \<noteq> []"
    by (simp_all add: js_def)
  then have "footerText (d\<lparr>df_showPageNumbers := b\<rparr>) p \<noteq> footerLiteral d"
    unfolding footerText_numbers(1) [OF n] l by auto
  then show ?thesis using False by simp
qed

text \<open>
  Claim C10, as amended. When no footer callback is configured, the header callback, if
  there is one, does nothing but place text and images, and the default footer does not
  say whether page numbers show, they show: every page \<open>N\<close> carries as its last content
  fragment the footer with the text \<open><text> - Page N\<close>, or \<open>Page N\<close> when there is no
  literal text. Suppressing the page numbers requires \<open>showPageNumbers: false\<close>: whatever
  else the field holds, the footer text is the literal text alone exactly when it holds
  \<open>false\<close>.
\<close>

theorem footer_numbers_default_on:
  assumes "footerScript cbs = None" "onFooter (config s) = None" "placesOnly (headerScript cbs)"
    "defaultFooter (config s) = Some d" "df_showPageNumbers d = None"
    "length (pages s) < fuel"
  shows "(\<exists>s' m'. applyHeaderFooterWith fuel h cbs out (s, m) = Some ((s', m'), None)
           \<and> length (pages s') = length (pages s)
           \<and> (\<forall>p. 1 \<le> p \<and> p \<le> length (pages s) \<longrightarrow>
                 content (pages s' ! (p - 1)) \<noteq> []
                 \<and> last (content (pages s' ! (p - 1))) = footerFragment h d p
                 \<and> (footerLiteral d \<noteq> [] \<longrightarrow>
                      footerText d p = footerLiteral d @ js '' - Page '' @ showNat p)
                 \<and> (footerLiteral d = [] \<longrightarrow> footerText d p = js ''Page '' @ showNat p)))
       \<and> (\<forall>b p. (footerText (d\<lparr>df_showPageNumbers := b\<rparr>) p = footerLiteral d) = (b = Some False))"
proof -
  have n: "df_showPageNumbers d \<noteq> Some False" using assms(5) by simp
  from default_footer_pass [OF assms(1,2,3,4) n assms(6), of h out m] obtain s' m' where
    s': "applyHeaderFooterWith fuel h cbs out (s, m) = Some ((s', m'), None)"
      "length (pages s') = length (pages s)"
      "\<forall>p. 1 \<le> p \<and> p \<le> length (pages s) \<longrightarrow>
                 content (pages s' ! (p - 1)) \<noteq> []
                 \<and> last (content (pages s' ! (p - 1))) = footerFragment h d p"
    by (elim exE conjE) (rule that)
  have t: "\<And>p. footerLiteral d = [] \<Longrightarrow> footerText d p = js ''Page '' @ showNat p"
    "\<And>p. footerLiteral d \<noteq> [] \<Longrightarrow> footerText d p = footerLiteral d @ js '' - Page '' @ showNat p"
    using footerText_numbers(1) [OF n] by simp_all
  have off: "\<forall>b p. (footerText (d\<lparr>df_showPageNumbers := b\<rparr>) p = footerLiteral d) = (b = Some False)"
    using footerText_suppressed by blast
  have "\<exists>s' m'. applyHeaderFooterWith fuel h cbs out (s, m) = Some ((s', m'), None)
           \<and> length (pages s') = length (pages s)
           \<and> (\<forall>p. 1 \<le> p \<and> p \<le> length (pages s) \<longrightarrow>
                 content (pages s' ! (p - 1)) \<noteq> []
                 \<and> last (content (pages s' ! (p - 1))) = footerFragment h d p
                 \<and> (footerLiteral d \<noteq> [] \<longrightarrow>
                      footerText d p = footerLiteral d @ js '' - Page '' @ showNat p)
                 \<and> (footerLiteral d = [] \<longrightarrow> footerText d p = js ''Page '' @ showNat p))"
    by (rule exI [of _ s'], rule exI [of _ m']) (use s' t in simp)
  then show ?thesis using off by (rule conjI)
qed

theorem footer_numbers_default_on_witness:
  "footerScript titleHeader = None
   \<and> onFooter (config (twoPages reportConfig)) = None
   \<and> placesOnly (headerScript titleHeader)
   \<and> defaultFooter (config (twoPages reportConfig)) = Some reportFooter
   \<and> df_showPageNumbers reportFooter = None
   \<and> length (pages (twoPages reportConfig)) < 3
   \<and> footerText reportFooter 2 = js ''Report - Page 2''
   \<and> footerText (reportFooter\<lparr>df_showPageNumbers := Some False\<rparr>) 2 = js ''Report''
   \<and> footerText (reportFooter\<lparr>df_showPageNumbers := Some True\<rparr>) 2 \<noteq> js ''Report''
   \<and> (\<exists>s' m'. applyHeaderFooterWith 3 sampleHost titleHeader (reenter 2 sampleHost titleHeader)
           (twoPages reportConfig, 0) = Some ((s', m'), None)
         \<and> last (content (pages s' ! 1)) = footerFragment sampleHost reportFooter 2)"
proof -
  have a: "onFooter (config (twoPages reportConfig)) = None"
    and b: "defaultFooter (config (twoPages reportConfig)) = Some reportFooter"
    by (simp_all add: reportConfig_def emptyConfig_def)
  have c: "df_showPageNumbers reportFooter = None"
    and l: "footerLiteral reportFooter = js ''Report''"
    by (simp_all add: reportFooter_def footerLiteral_def)
  have fu: "length (pages (twoPages reportConfig)) < 3" by simp
  have n: "showNat 2 = js ''2''" by (simp add: showNat.simps js_def digitChar_def)
  note th = footer_numbers_default_on [OF titleHeader_places(1) a titleHeader_places(2) b c fu,
      of sampleHost "reenter 2 sampleHost titleHeader" 0]
  from th [THEN conjunct1] obtain s' m' where
    s': "applyHeaderFooterWith 3 sampleHost titleHeader (reenter 2 sampleHost titleHeader)
           (twoPages reportConfig, 0) = Some ((s', m'), None)"
      "\<forall>p. 1 \<le> p \<and> p \<le> length (pages (twoPages reportConfig)) \<longrightarrow>
                 content (pages s' ! (p - 1)) \<noteq> []
                 \<and> last (content (pages s' ! (p - 1))) = footerFragment sampleHost reportFooter p
                 \<and> (footerLiteral reportFooter \<noteq> [] \<longrightarrow>
                      footerText reportFooter p = footerLiteral reportFooter @ js '' - Page '' @ showNat p)
                 \<and> (footerLiteral reportFooter = [] \<longrightarrow> footerText reportFooter p = js ''Page '' @ showNat p)"
    by (elim exE conjE) (rule that)
  have p2: "last (content (pages s' ! 1)) = footerFragment sampleHost reportFooter 2"
    "footerText reportFooter 2 = js ''Report - Page 2''"
    using s'(2) [rule_format, of 2] l n by (simp_all add: js_def)
  have off: "footerText (reportFooter\<lparr>df_showPageNumbers := Some False\<rparr>) 2 = js ''Report''"
    "footerText (reportFooter\<lparr>df_showPageNumbers := Some True\<rparr>) 2 \<noteq> js ''Report''"
    using th [THEN conjunct2] l by simp_all
  have "\<exists>s' m'. applyHeaderFooterWith 3 sampleHost titleHeader (reenter 2 sampleHost titleHeader)
           (twoPages reportConfig, 0) = Some ((s', m'), None)
         \<and> last (content (pages s' ! 1)) = footerFragment sampleHost reportFooter 2"
    by (intro exI [of _ s'] exI [of _ m'] conjI) (rule s'(1) p2(1))+
  then show ?thesis using titleHeader_places a b c fu p2(2) off by simp
qed


section \<open>Properties of the serializer\<close>

lemma headerAt_append: "headerAt buf off hdr \<Longrightarrow> headerAt (buf @ rest) off hdr"
  by (auto simp: headerAt_def)

lemma headerAt_end: "headerAt (buf @ hdr @ rest) (length buf) hdr"
  by (simp add: headerAt_def)

lemma headerAt_map: "headerAt buf off hdr \<Longrightarrow> headerAt (map f buf) off (map f hdr)"
  by (auto simp: headerAt_def take_map drop_map simp flip: map_append)

lemma headerAt_toBytes:
  "headerAt buf off hdr \<Longrightarrow> headerAt (toBytes (buf @ rest)) off (toBytes hdr)"
  unfolding toBytes_def by (intro headerAt_map headerAt_append)

lemma addObject_OK:
  assumes "accOK acc"
  shows "accOK (addObject i c acc)"
proof -
  have co: "currentOffset acc = length (buffer acc)" using assms by (simp add: accOK_def)
  have old: "\<And>k off. k \<noteq> 0 \<Longrightarrow> xref acc k = Some off \<Longrightarrow> headerAt (buffer acc) off (objHeader k)"
    using assms by (simp add: accOK_def)
  show ?thesis
    unfolding accOK_def addObject_def Let_def
    by (auto simp: co headerAt_end intro: headerAt_append old)
qed

lemma emitPages_OK:
  "accOK acc \<Longrightarrow> emitPages imgs r ps acc = Inr acc' \<Longrightarrow> accOK acc'"
proof (induction ps arbitrary: acc)
  case Nil
  then show ?case by simp
next
  case (Cons p ps)
  from Cons.prems(2) obtain xo where
    xo: "xObjectRes imgs (res_images p) = Inr xo"
    and rest: "emitPages imgs r ps (addObject (contentId p) (streamObject p)
                 (addObject (page_id p) (pageContent r p xo) acc)) = Inr acc'"
    by (auto split: sum.splits)
  show ?case
    by (rule Cons.IH [OF _ rest]) (intro addObject_OK Cons.prems(1))
qed

lemma emitImages_OK:
  "accOK acc \<Longrightarrow> emitImages h imgs acc = Inr acc' \<Longrightarrow> accOK acc'"
proof (induction imgs arbitrary: acc)
  case Nil
  then show ?case by simp
next
  case (Cons ki imgs)
  obtain k img where ki: "ki = (k, img)" by (cases ki)
  from Cons.prems(2) obtain bin where
    rest: "emitImages h imgs (addObject (img_id img) (imageObject h img bin) acc) = Inr acc'"
    by (auto simp: ki split: option.splits)
  show ?case
    by (rule Cons.IH [OF _ rest]) (intro addObject_OK Cons.prems(1))
qed

lemma emitObjects_OK:
  assumes "emitObjects h c r s = Inr acc"
  shows "accOK acc"
proof -
  let ?acc0 = "\<lparr>buffer = buffer0, currentOffset = length buffer0, xref = [0 \<mapsto> 0]\<rparr>"
  have a0: "accOK ?acc0" by (simp add: accOK_def)
  let ?acc2 = "addObject r (pagesRootContent (pages s)) (addObject c (catalogContent r) ?acc0)"
  have a2: "accOK ?acc2" by (intro addObject_OK a0)
  from assms obtain acc3 where
    p: "emitPages (images s) r (pages s) ?acc2 = Inr acc3"
    and i: "emitImages h (images s) acc3 = Inr acc"
    by (auto simp: emitObjects_def Let_def split: sum.splits)
  show ?thesis by (rule emitImages_OK [OF emitPages_OK [OF a2 p] i])
qed

lemma xrefLines_offs:
  "xrefLines xr ids = Inr ls \<Longrightarrow>
     \<exists>offs. length offs = length ids \<and> (\<forall>j<length ids. xr (ids ! j) = Some (offs ! j))
            \<and> ls = concat (map xrefLine offs)"
proof (induction ids arbitrary: ls)
  case Nil
  then show ?case by simp
next
  case (Cons i ids)
  from Cons.prems obtain off rest where
    o: "xr i = Some off" and r: "xrefLines xr ids = Inr rest" and l: "ls = xrefLine off @ rest"
    by (auto split: option.splits sum.splits)
  from Cons.IH [OF r] obtain offs where
    offs: "length offs = length ids" "\<forall>j<length ids. xr (ids ! j) = Some (offs ! j)"
      "rest = concat (map xrefLine offs)" by blast
  have "\<forall>j<length (i # ids). xr ((i # ids) ! j) = Some ((off # offs) ! j)"
    using o offs(2) by (auto simp: nth_Cons split: nat.splits)
  then show ?case using offs(1,3) l
    by (intro exI [of _ "off # offs"]) simp
qed

text \<open>
  Claim C1. Whenever \<open>buildPdf\<close> returns bytes, they are the objects, the head of the
  cross-reference table, one entry line per object id \<open>k = 1, \<dots>, objectCounter - 1\<close> in
  this order, and the rest; the entry of id \<open>k\<close> is the ten-digit text of an offset, read
  back by \<open>parseInt\<close> as that offset, and at that index of the byte array the header
  \<open>k 0 obj\<close> of the object begins.
\<close>

theorem xref_offsets_exact:
  assumes "buildPdf h s = Some (s', Inr out)"
  shows "\<exists>body offs rest. length offs = objectCounter s' - 1
     \<and> out = toBytes (body @ xrefHead (objectCounter s') @ concat (map xrefLine offs) @ rest)
     \<and> (\<forall>k. 1 \<le> k \<and> k < objectCounter s' \<longrightarrow>
           headerAt out (offs ! (k - 1)) (toBytes (objHeader k))
           \<and> parseInt (xrefLine (offs ! (k - 1))) = Some (offs ! (k - 1)))"
proof -
  from assms obtain s1 where
    s1: "serialize h s1 = (s', Inr out)"
    by (auto simp: buildPdf_def split: option.splits prod.splits)
  define c where "c = objectCounter s1"
  define r where "r = c + 1"
  define s3 where "s3 = s1\<lparr>objectCounter := c + 2\<rparr>"
  define ids where "ids = [1..<objectCounter s3]"
  have ser: "serialize h s1 =
    (case emitObjects h c r s3 of
       Inl e \<Rightarrow> (s3, Inl e)
     | Inr acc \<Rightarrow>
        (case xrefLines (xref acc) ids of
           Inl e \<Rightarrow> (s3, Inl e)
         | Inr ls \<Rightarrow> (s3, Inr (toBytes (buffer acc @ xrefHead (objectCounter s3) @ ls
                                  @ trailer (objectCounter s3) c (currentOffset acc))))))"
    by (simp add: serialize_def allocateRoots_def getNextId_def c_def r_def s3_def ids_def Let_def
      split: sum.splits)
  obtain acc where acc: "emitObjects h c r s3 = Inr acc"
    using s1 by (cases "emitObjects h c r s3") (simp_all add: ser)
  obtain ls where ls: "xrefLines (xref acc) ids = Inr ls"
    using s1 by (cases "xrefLines (xref acc) ids") (simp_all add: ser acc)
  have s': "s' = s3"
    and out: "out = toBytes (buffer acc @ xrefHead (objectCounter s3) @ ls
                                  @ trailer (objectCounter s3) c (currentOffset acc))"
    using s1 by (auto simp add: ser acc ls)
  have ok: "accOK acc" using emitObjects_OK [OF acc] .
  from xrefLines_offs [OF ls] obtain offs where
    offs: "length offs = length ids"
      "\<forall>j<length ids. xref acc (ids ! j) = Some (offs ! j)"
      "ls = concat (map xrefLine offs)" by blast
  have len: "length offs = objectCounter s' - 1" using offs(1) s' by (simp add: ids_def)
  have hdr: "\<forall>k. 1 \<le> k \<and> k < objectCounter s' \<longrightarrow>
           headerAt out (offs ! (k - 1)) (toBytes (objHeader k))
           \<and> parseInt (xrefLine (offs ! (k - 1))) = Some (offs ! (k - 1))"
  proof (intro allI impI conjI)
    fix k assume k: "1 \<le> k \<and> k < objectCounter s'"
    then have j: "k - 1 < length ids" "ids ! (k - 1) = k"
      using s' by (auto simp: ids_def)
    then have "xref acc k = Some (offs ! (k - 1))" using offs(2) by metis
    then have "headerAt (buffer acc) (offs ! (k - 1)) (objHeader k)"
      using ok k by (simp add: accOK_def)
    then show "headerAt out (offs ! (k - 1)) (toBytes (objHeader k))"
      unfolding out by (rule headerAt_toBytes)
  next
    fix k
    show "parseInt (xrefLine (offs ! (k - 1))) = Some (offs ! (k - 1))"
      by (rule parseInt_xrefLine)
  qed
  show ?thesis
    by (intro exI [of _ "buffer acc"] exI [of _ offs]
        exI [of _ "trailer (objectCounter s3) c (currentOffset acc)"] conjI len hdr)
       (simp add: out offs(3) s')
qed

lemma pass_empty:
  "applyHeaderFooter sampleHost (constructor emptyConfig) = Some (constructor emptyConfig, None)"
  by (simp add: applyHeaderFooter_def hfLoop.simps hfPage_def constructor_def initial_def
    emptyConfig_def applyHeader_def applyFooter_def setPage_def orZero_def newPage_def)

lemma serialize_empty_out:
  "snd (serialize sampleHost (constructor emptyConfig)) = Inr emptyDocumentOutput"
  by code_simp

lemma serialize_state:
  "fst (serialize h s) = s\<lparr>objectCounter := objectCounter s + 2\<rparr>"
  by (simp add: serialize_def allocateRoots_def getNextId_def Let_def split: sum.splits)

lemma build_empty:
  "buildPdf sampleHost (constructor emptyConfig)
     = Some ((constructor emptyConfig)\<lparr>objectCounter := 5\<rparr>, Inr emptyDocumentOutput)"
proof -
  have "objectCounter (constructor emptyConfig) = 3" by (simp add: constructor_def initial_def)
  then have "fst (serialize sampleHost (constructor emptyConfig)) = (constructor emptyConfig)\<lparr>objectCounter := 5\<rparr>"
    by (simp add: serialize_state)
  then have "serialize sampleHost (constructor emptyConfig) = ((constructor emptyConfig)\<lparr>objectCounter := 5\<rparr>, Inr emptyDocumentOutput)"
    using serialize_empty_out by (metis prod.collapse)
  then show ?thesis by (simp add: buildPdf_def pass_empty)
qed

theorem xref_offsets_exact_witness:
  "buildPdf sampleHost (constructor emptyConfig)
     = Some ((constructor emptyConfig)\<lparr>objectCounter := 5\<rparr>, Inr emptyDocumentOutput)
   \<and> (\<exists>offs. length offs = 4
         \<and> headerAt emptyDocumentOutput (offs ! 0) (toBytes (objHeader 1))
         \<and> headerAt emptyDocumentOutput (offs ! 1) (toBytes (objHeader 2))
         \<and> headerAt emptyDocumentOutput (offs ! 2) (toBytes (objHeader 3))
         \<and> headerAt emptyDocumentOutput (offs ! 3) (toBytes (objHeader 4)))"
proof -
  have c: "objectCounter ((constructor emptyConfig)\<lparr>objectCounter := 5\<rparr>) = 5" by simp
  from xref_offsets_exact [OF build_empty] obtain offs where
    o: "length offs = objectCounter ((constructor emptyConfig)\<lparr>objectCounter := 5\<rparr>) - 1"
      "\<forall>k. 1 \<le> k \<and> k < objectCounter ((constructor emptyConfig)\<lparr>objectCounter := 5\<rparr>) \<longrightarrow>
           headerAt emptyDocumentOutput (offs ! (k - 1)) (toBytes (objHeader k))
           \<and> parseInt (xrefLine (offs ! (k - 1))) = Some (offs ! (k - 1))"
    by blast
  have "headerAt emptyDocumentOutput (offs ! 0) (toBytes (objHeader 1))"
    "headerAt emptyDocumentOutput (offs ! 1) (toBytes (objHeader 2))"
    "headerAt emptyDocumentOutput (offs ! 2) (toBytes (objHeader 3))"
    "headerAt emptyDocumentOutput (offs ! 3) (toBytes (objHeader 4))"
    using o(2) [rule_format, of 1] o(2) [rule_format, of 2] o(2) [rule_format, of 3]
      o(2) [rule_format, of 4] unfolding c by simp_all
  moreover have "length offs = 4" using o(1) unfolding c by simp
  ultimately show ?thesis using build_empty by blast
qed

section \<open>Properties of the allocator\<close>

lemma allocOK_cong:
  assumes "allocOK s" "objectCounter s' = objectCounter s" "pageIds s' = pageIds s"
    "imageIds s' = imageIds s"
  shows "allocOK s'"
  using assms by (simp add: allocOK_def)

lemma allocOK_initial: "allocOK (initial cfg\<lparr>headerHeight := a, footerHeight := b\<rparr>)"
  by (simp add: allocOK_def initial_def pageIds_def imageIds_def)

lemma pageIds_addPage: "pageIds (addPage s) = pageIds s @ [objectCounter s, objectCounter s + 1]"
  by (simp add: pageIds_def newPage_def)

lemma imageIds_addPage: "imageIds (addPage s) = imageIds s"
  by (simp add: imageIds_def)

lemma fresh_ids:
  assumes "set xs \<union> set ys = {1..<c}" "1 \<le> (c::nat)"
  shows "c \<notin> set xs" "c \<notin> set ys" "Suc c \<notin> set xs" "Suc c \<notin> set ys"
    "\<And>x. x \<in> set xs \<Longrightarrow> x < c" "\<And>x. x \<in> set ys \<Longrightarrow> x < c"
    "{1..<Suc c} = insert c {1..<c}" "{1..<Suc (Suc c)} = insert (Suc c) (insert c {1..<c})"
proof -
  have m: "\<And>x. x \<in> set xs \<union> set ys \<Longrightarrow> x < c" unfolding assms(1) by simp
  show "\<And>x. x \<in> set xs \<Longrightarrow> x < c" "\<And>x. x \<in> set ys \<Longrightarrow> x < c" using m by simp_all
  show "c \<notin> set xs" "c \<notin> set ys" "Suc c \<notin> set xs" "Suc c \<notin> set ys"
    using m [of c] m [of "Suc c"] by auto
  show "{1..<Suc c} = insert c {1..<c}" using assms(2) by (simp add: atLeastLessThanSuc)
  then show "{1..<Suc (Suc c)} = insert (Suc c) (insert c {1..<c})"
    using assms(2) by (simp add: atLeastLessThanSuc)
qed

lemma allocOK_addPage:
  assumes "allocOK s"
  shows "allocOK (addPage s)"
proof -
  let ?c = "objectCounter s"
  have st: "set (pageIds s) \<union> set (imageIds s) = {1..<?c}" and c: "1 \<le> ?c"
    and d: "distinct (pageIds s)" "distinct (imageIds s)" "set (pageIds s) \<inter> set (imageIds s) = {}"
    and sp: "sorted_wrt (<) (pageIds s)" and si: "sorted_wrt (<) (imageIds s)"
    using assms by (simp_all add: allocOK_def)
  note fr = fresh_ids [OF st c]
  have s1: "sorted_wrt (<) (pageIds s @ [?c, Suc ?c])"
    using sp fr(5) by (simp add: sorted_wrt_append less_Suc_eq)
  have d1: "distinct ((pageIds s @ [?c, Suc ?c]) @ imageIds s)"
    using d fr(1-4) by simp
  have e1: "set ((pageIds s @ [?c, Suc ?c]) @ imageIds s) = {1..<Suc (Suc ?c)}"
    unfolding fr(8) st [symmetric] by auto
  show ?thesis
    unfolding allocOK_def pageIds_addPage imageIds_addPage
    using s1 d1 e1 si by simp
qed

lemma allocOK_constructor: "allocOK (constructor cfg)"
  unfolding constructor_def by (rule allocOK_addPage) (rule allocOK_initial)

lemma pageIds_update:
  assumes "i < length (pages s)" "page_id p = page_id (pages s ! i)" "contentId p = contentId (pages s ! i)"
  shows "pageIds (s\<lparr>pages := (pages s)[i := p]\<rparr>) = pageIds s"
proof -
  have "map (\<lambda>p. [page_id p, contentId p]) ((pages s)[i := p]) = map (\<lambda>p. [page_id p, contentId p]) (pages s)"
    using assms by (intro map_update_same) simp_all
  then show ?thesis by (simp add: pageIds_def)
qed

lemma placedImage_ids [simp]:
  "page_id (placedImage h k x y opts p) = page_id p"
  "contentId (placedImage h k x y opts p) = contentId p"
  "res_fonts (placedImage h k x y opts p) = res_fonts p"
  by (simp_all add: placedImage_def)

lemma allocOK_place:
  assumes "allocOK s" "page_id p = page_id (pages s ! i)" "contentId p = contentId (pages s ! i)"
  shows "allocOK (s\<lparr>pages := (pages s)[i := p]\<rparr>)"
proof (cases "i < length (pages s)")
  case True
  show ?thesis
    by (rule allocOK_cong [OF assms(1)]) (simp_all add: pageIds_update [OF True assms(2,3)] imageIds_def)
next
  case False
  then have "(pages s)[i := p] = pages s" by (simp add: list_update_beyond)
  then show ?thesis using assms(1) by simp
qed

lemma allocOK_addText:
  assumes "allocOK s"
  shows "allocOK (fst (addText h text x y opts s))"
proof (cases "\<not> isApplyingHeaderFooter s \<and> double (y + sizeOf opts) > double (PAGE_HEIGHT - footerHeight s)")
  case True
  have "(addPage s)\<lparr>pages := pages s @ [placedText h text x (double (headerHeight s + 20)) opts (newPage (objectCounter s))]\<rparr>
      = (addPage s)\<lparr>pages := (pages (addPage s))[length (pages s) :=
            placedText h text x (double (headerHeight s + 20)) opts (newPage (objectCounter s))]\<rparr>"
    by simp
  moreover have "allocOK \<dots>"
    by (rule allocOK_place [OF allocOK_addPage [OF assms]]) simp_all
  ultimately show ?thesis using True by (simp add: addText_overflow_eq)
next
  case False
  then have e: "addText h text x y opts s =
           (case arrayAt (pages s) (currentPageIndex s) of
              None \<Rightarrow> (s, Inl TypeError)
            | Some p \<Rightarrow> (s\<lparr>pages := (pages s)[nat (currentPageIndex s) := placedText h text x y opts p]\<rparr>, Inr y))"
    by (intro addText_plain_eq) auto
  show ?thesis
  proof (cases "arrayAt (pages s) (currentPageIndex s)")
    case None
    then show ?thesis using assms by (simp add: e)
  next
    case (Some p)
    then have "p = pages s ! nat (currentPageIndex s)" by (auto simp: arrayAt_def split: if_splits)
    then show ?thesis using Some allocOK_place [OF assms, of "placedText h text x y opts p" "nat (currentPageIndex s)"]
      by (simp add: e)
  qed
qed

lemma allocOK_registered:
  assumes "allocOK s"
  shows "allocOK (registered d opts s)"
proof (cases "map_of (images s) (nextImageKey s) = None")
  case False
  then show ?thesis using assms by (auto simp add: registered_def)
next
  case True
  let ?c = "objectCounter s"
  have st: "set (pageIds s) \<union> set (imageIds s) = {1..<?c}" and c: "1 \<le> ?c"
    and dd: "distinct (pageIds s)" "distinct (imageIds s)" "set (pageIds s) \<inter> set (imageIds s) = {}"
    and sp: "sorted_wrt (<) (pageIds s)" and si: "sorted_wrt (<) (imageIds s)"
    using assms by (simp_all add: allocOK_def)
  note fr = fresh_ids [OF st c]
  have i: "imageIds (registered d opts s) = imageIds s @ [?c]"
    and p: "pageIds (registered d opts s) = pageIds s"
    and n: "objectCounter (registered d opts s) = Suc ?c"
    using True by (simp_all add: registered_def imageIds_def pageIds_def)
  have s1: "sorted_wrt (<) (imageIds s @ [?c])" using si fr(6) by (simp add: sorted_wrt_append)
  have d1: "distinct (pageIds s @ imageIds s @ [?c])" using dd fr(1,2) by simp
  have e1: "set (pageIds s @ imageIds s @ [?c]) = {1..<Suc ?c}"
    unfolding fr(7) st [symmetric] by auto
  show ?thesis unfolding allocOK_def i p n using s1 d1 e1 sp c by simp
qed

lemma allocOK_addImageCommit:
  assumes "allocOK s"
  shows "allocOK (fst (addImageCommit h d x y opts s))"
proof (cases "arrayAt (pages s) (currentPageIndex s)")
  case None
  then show ?thesis using allocOK_registered [OF assms] by (simp add: addImageCommit_eq)
next
  case (Some p)
  then have p: "p = pages s ! nat (currentPageIndex s)" by (auto simp: arrayAt_def split: if_splits)
  have "allocOK ((registered d opts s)\<lparr>pages := (pages (registered d opts s))[nat (currentPageIndex s) :=
                       placedImage h (nextImageKey s) x y opts p]\<rparr>)"
    by (rule allocOK_place [OF allocOK_registered [OF assms]]) (simp_all add: p)
  then show ?thesis using Some by (simp add: addImageCommit_eq)
qed

lemma allocOK_addImage:
  assumes "allocOK s"
  shows "allocOK (fst (addImage h imageData x y opts s))"
proof -
  obtain s1 y1 where b: "addImageBegin y opts s = (s1, y1)" by (cases "addImageBegin y opts s")
  then have "s1 = s \<or> s1 = addPage s" by (auto simp: addImageBegin_def split: if_splits)
  then have ok1: "allocOK s1" using assms allocOK_addPage by auto
  show ?thesis
    using ok1 allocOK_addImageCommit [OF ok1]
    by (cases "processImage h imageData") (simp_all add: addImage_def b)
qed

lemma allocOK_runCommand: "allocOK s \<Longrightarrow> allocOK (runCommand h c s)"
  by (cases c) (simp_all add: runCommand_def allocOK_addText allocOK_addImage allocOK_addPage)

lemma allocOK_runCommands: "allocOK s \<Longrightarrow> allocOK (runCommands h cs s)"
  unfolding runCommands_def
  by (induction cs arbitrary: s) (simp_all add: allocOK_runCommand)

lemma frame_ids:
  assumes "frame s' = frame s"
  shows "objectCounter s' = objectCounter s" "pageIds s' = pageIds s" "imageIds s' = imageIds s"
proof -
  have m: "map (\<lambda>p. (page_id p, contentId p, res_images p)) (pages s')
         = map (\<lambda>p. (page_id p, contentId p, res_images p)) (pages s)"
    and i: "images s' = images s" and c: "objectCounter s' = objectCounter s"
    using assms by (simp_all add: frame_def)
  have "map (\<lambda>p. [page_id p, contentId p]) (pages s') = map (\<lambda>t. [fst t, fst (snd t)]) (map (\<lambda>p. (page_id p, contentId p, res_images p)) (pages s'))"
    by simp
  also have "\<dots> = map (\<lambda>t. [fst t, fst (snd t)]) (map (\<lambda>p. (page_id p, contentId p, res_images p)) (pages s))"
    unfolding m ..
  also have "\<dots> = map (\<lambda>p. [page_id p, contentId p]) (pages s)" by simp
  finally show "pageIds s' = pageIds s" by (simp add: pageIds_def)
  show "imageIds s' = imageIds s" by (simp add: imageIds_def i)
  show "objectCounter s' = objectCounter s" by (rule c)
qed

lemma allocateRoots_eq:
  "allocateRoots s = (objectCounter s, objectCounter s + 1, s\<lparr>objectCounter := objectCounter s + 2\<rparr>)"
  by (simp add: allocateRoots_def getNextId_def)

lemma counter_runCommand: "objectCounter s \<le> objectCounter (runCommand h c s)"
proof (cases c)
  case (AddText t x y opts)
  show ?thesis
    by (cases "\<not> isApplyingHeaderFooter s \<and> double (y + sizeOf opts) > double (PAGE_HEIGHT - footerHeight s)")
       (auto simp: AddText runCommand_def addText_overflow_eq addText_plain_eq split: option.splits)
next
  case (AddImage d x y opts)
  obtain s1 y1 where b: "addImageBegin y opts s = (s1, y1)" by (cases "addImageBegin y opts s")
  then have "s1 = s \<or> s1 = addPage s" by (auto simp: addImageBegin_def split: if_splits)
  then have "objectCounter s \<le> objectCounter s1" by auto
  moreover have "objectCounter s1 \<le> objectCounter (registered dd opts s1)" for dd
    by (simp add: registered_def)
  ultimately show ?thesis
    by (cases "processImage h d")
       (auto simp: AddImage runCommand_def addImage_def b addImageCommit_eq split: option.splits
          intro: order_trans)
next
  case AddPage
  then show ?thesis by (simp add: runCommand_def)
qed

text \<open>
  Claim C9. The counter starts at 1 and \<open>getNextId\<close> returns it and adds one, so
  successive ids grow by one; no call of the document lowers the counter. In every
  document built by the constructor and any calls of \<open>addText\<close>, \<open>addImage\<close> and
  \<open>addPage\<close>, the ids of the pages, content streams and images are pairwise distinct,
  are exactly \<open>1, \<dots>, objectCounter - 1\<close>, and grow in the order of allocation. The
  header and footer pass ends and allocates nothing; the serializer then takes the next
  two ids for the catalog and the page-tree root, and all ids together are distinct and are
  exactly \<open>1, \<dots>, objectCounter - 1\<close> again.
\<close>

theorem allocator_ids:
  "fst (getNextId (initial cfg)) = 1
   \<and> fst (getNextId (snd (getNextId s))) = fst (getNextId s) + 1
   \<and> objectCounter s \<le> objectCounter (runCommand h c s)
   \<and> allocOK (runCommands h cs (constructor cfg))
   \<and> (\<exists>s1 s3. applyHeaderFooter h (runCommands h cs (constructor cfg)) = Some (s1, None)
        \<and> allocateRoots s1 = (objectCounter s1, objectCounter s1 + 1, s3)
        \<and> objectCounter s1 = objectCounter (runCommands h cs (constructor cfg))
        \<and> objectCounter s3 = objectCounter s1 + 2
        \<and> pageIds s3 = pageIds (runCommands h cs (constructor cfg))
        \<and> imageIds s3 = imageIds (runCommands h cs (constructor cfg))
        \<and> distinct (pageIds s3 @ imageIds s3 @ [objectCounter s1, objectCounter s1 + 1])
        \<and> set (pageIds s3 @ imageIds s3 @ [objectCounter s1, objectCounter s1 + 1]) = {1..<objectCounter s3})"
proof -
  define d where "d = runCommands h cs (constructor cfg)"
  have ok: "allocOK d" unfolding d_def by (rule allocOK_runCommands) (rule allocOK_constructor)
  from applyHeaderFooter_total [of h d] obtain s1 where
    r: "applyHeaderFooter h d = Some (s1, None)" and f: "frame s1 = frame d" by metis
  note ids = frame_ids [OF f]
  define s3 where "s3 = s1\<lparr>objectCounter := objectCounter s1 + 2\<rparr>"
  have p3: "pageIds s3 = pageIds d" "imageIds s3 = imageIds d" "objectCounter s3 = objectCounter s1 + 2"
    using ids by (simp_all add: s3_def pageIds_def imageIds_def)
  let ?c = "objectCounter d"
  have st: "set (pageIds d) \<union> set (imageIds d) = {1..<?c}" and c: "1 \<le> ?c"
    and dd: "distinct (pageIds d)" "distinct (imageIds d)" "set (pageIds d) \<inter> set (imageIds d) = {}"
    using ok by (simp_all add: allocOK_def)
  note fr = fresh_ids [OF st c]
  have d1: "distinct (pageIds d @ imageIds d @ [?c, ?c + 1])" using dd fr(1-4) by simp
  have "set (pageIds d @ imageIds d @ [?c, Suc ?c]) = {1..<Suc (Suc ?c)}"
    unfolding fr(8) st [symmetric] by auto
  then have e1: "set (pageIds d @ imageIds d @ [?c, ?c + 1]) = {1..<?c + 2}" by simp
  have last: "\<exists>s1 s3. applyHeaderFooter h d = Some (s1, None)
        \<and> allocateRoots s1 = (objectCounter s1, objectCounter s1 + 1, s3)
        \<and> objectCounter s1 = objectCounter d
        \<and> objectCounter s3 = objectCounter s1 + 2
        \<and> pageIds s3 = pageIds d
        \<and> imageIds s3 = imageIds d
        \<and> distinct (pageIds s3 @ imageIds s3 @ [objectCounter s1, objectCounter s1 + 1])
        \<and> set (pageIds s3 @ imageIds s3 @ [objectCounter s1, objectCounter s1 + 1]) = {1..<objectCounter s3}"
  proof (rule exI [of _ s1], rule exI [of _ s3], intro conjI)
    show "applyHeaderFooter h d = Some (s1, None)" by (rule r)
    show "allocateRoots s1 = (objectCounter s1, objectCounter s1 + 1, s3)"
      by (simp add: allocateRoots_eq s3_def)
    show "objectCounter s1 = objectCounter d" by (rule ids(1))
    show "objectCounter s3 = objectCounter s1 + 2" by (rule p3(3))
    show "pageIds s3 = pageIds d" by (rule p3(1))
    show "imageIds s3 = imageIds d" by (rule p3(2))
    show "distinct (pageIds s3 @ imageIds s3 @ [objectCounter s1, objectCounter s1 + 1])"
      unfolding p3 ids(1) by (rule d1)
    show "set (pageIds s3 @ imageIds s3 @ [objectCounter s1, objectCounter s1 + 1]) = {1..<objectCounter s3}"
      unfolding p3 ids(1) by (rule e1)
  qed
  have a: "fst (getNextId (initial cfg)) = 1" by (simp add: getNextId_def initial_def)
  have b: "fst (getNextId (snd (getNextId s))) = fst (getNextId s) + 1" by (simp add: getNextId_def)
  show ?thesis using a b counter_runCommand ok last unfolding d_def by blast
qed

lemma mixedDocument_ids:
  "pageIds mixedDocument = [1, 2, 4, 5]" "imageIds mixedDocument = [3]" "objectCounter mixedDocument = 6"
  by (simp_all add: mixedDocument_def runCommands_def runCommand_def constructor_def initial_def
    emptyConfig_def orZero_def addText_plain_eq addImage_def addImageBegin_plain_eq addImageCommit_eq
    registered_def nextImageKey_def pageIds_def imageIds_def newPage_def
    double_small_values PAGE_HEIGHT_value double_PAGE_HEIGHT_value MAX_HEADER_HEIGHT_def MAX_FOOTER_HEIGHT_def
    sizeOf_def plainText_def squareImage_def sampleHost_def arrayAt_def js_def)

theorem allocator_ids_witness:
  "pageIds mixedDocument = [1, 2, 4, 5] \<and> imageIds mixedDocument = [3]
   \<and> objectCounter mixedDocument = 6 \<and> allocOK mixedDocument
   \<and> (\<exists>s1 s3. applyHeaderFooter sampleHost mixedDocument = Some (s1, None)
         \<and> allocateRoots s1 = (6, 7, s3) \<and> objectCounter s3 = 8
         \<and> distinct (pageIds s3 @ imageIds s3 @ [6, 7]))"
proof -
  note th = allocator_ids [of emptyConfig "constructor emptyConfig" sampleHost AddPage
      "[AddText (js ''A'') 20 20 plainText, AddImage (js ''abc'') 20 40 squareImage, AddPage]",
      folded mixedDocument_def]
  then obtain s1 s3 where
    a: "applyHeaderFooter sampleHost mixedDocument = Some (s1, None)"
      "allocateRoots s1 = (objectCounter s1, objectCounter s1 + 1, s3)"
      "objectCounter s1 = objectCounter mixedDocument"
      "objectCounter s3 = objectCounter s1 + 2"
      "distinct (pageIds s3 @ imageIds s3 @ [objectCounter s1, objectCounter s1 + 1])"
    by blast
  have c: "objectCounter s1 = 6" using a(3) mixedDocument_ids(3) by simp
  have "\<exists>s1 s3. applyHeaderFooter sampleHost mixedDocument = Some (s1, None)
         \<and> allocateRoots s1 = (6, 7, s3) \<and> objectCounter s3 = 8
         \<and> distinct (pageIds s3 @ imageIds s3 @ [6, 7])"
    by (rule exI [of _ s1], rule exI [of _ s3]) (use a c in simp)
  then show ?thesis using th mixedDocument_ids by blast
qed

section \<open>The serialized page count\<close>

lemma runCommands_snoc: "runCommands h (cs @ [c]) s = runCommand h c (runCommands h cs s)"
  by (simp add: runCommands_def)

lemma pagesOnly_Suc: "pagesOnly h cfg (Suc n) = addPage (pagesOnly h cfg n)"
proof -
  have "replicate (Suc n) AddPage = replicate n AddPage @ [AddPage]"
    by (simp add: replicate_append_same)
  then show ?thesis
    unfolding pagesOnly_def by (simp only: runCommands_snoc) (simp add: runCommand_def)
qed

lemma pagesOnly_0: "pagesOnly h cfg 0 = constructor cfg"
  by (simp add: pagesOnly_def runCommands_def)

lemma pagesOnly_props:
  "length (pages (pagesOnly h cfg n)) = 1 + n \<and> objectCounter (pagesOnly h cfg n) = 2 * n + 3
   \<and> imageless (pagesOnly h cfg n)"
proof (induction n)
  case 0
  show ?case by (simp add: pagesOnly_0 constructor_def initial_def imageless_def newPage_def)
next
  case (Suc n)
  then show ?case by (simp add: pagesOnly_Suc imageless_def newPage_def)
qed

lemma frame_imageless:
  assumes "frame s' = frame s" "imageless s"
  shows "imageless s'"
proof -
  have m: "map (\<lambda>p. (page_id p, contentId p, res_images p)) (pages s')
         = map (\<lambda>p. (page_id p, contentId p, res_images p)) (pages s)"
    and i: "images s' = images s"
    using assms(1) by (simp_all add: frame_def)
  have "map res_images (pages s') = map (\<lambda>t. snd (snd t)) (map (\<lambda>p. (page_id p, contentId p, res_images p)) (pages s'))"
    by simp
  also have "\<dots> = map (\<lambda>t. snd (snd t)) (map (\<lambda>p. (page_id p, contentId p, res_images p)) (pages s))"
    unfolding m ..
  also have "\<dots> = map res_images (pages s)" by simp
  finally have "set (map res_images (pages s')) = set (map res_images (pages s))" by simp
  then have "res_images ` set (pages s') = res_images ` set (pages s)" by simp
  then show ?thesis using assms(2) i unfolding imageless_def by (metis imageE image_eqI)
qed

lemma addObject_fields:
  "buffer (addObject i c acc) = buffer acc @ fullObject i c"
  "dom (xref (addObject i c acc)) = insert i (dom (xref acc))"
  by (simp_all add: addObject_def fullObject_def Let_def)

lemma emitPages_imageless:
  assumes "\<forall>p \<in> set ps. res_images p = []"
  shows "\<exists>acc'. emitPages imgs r ps acc = Inr acc'
           \<and> buffer acc' = buffer acc @ concat (map (pageObjects r) ps)
           \<and> dom (xref acc') = dom (xref acc) \<union> set (concat (map (\<lambda>p. [page_id p, contentId p]) ps))"
  using assms
proof (induction ps arbitrary: acc)
  case Nil
  then show ?case by simp
next
  case (Cons p ps)
  let ?acc1 = "addObject (contentId p) (streamObject p) (addObject (page_id p) (pageContent r p []) acc)"
  have x: "xObjectRes imgs (res_images p) = Inr []" using Cons.prems by (simp add: xObjectRes_def)
  from Cons.prems have "\<forall>p \<in> set ps. res_images p = []" by simp
  from Cons.IH [OF this, of ?acc1] obtain acc' where
    a: "emitPages imgs r ps ?acc1 = Inr acc'"
       "buffer acc' = buffer ?acc1 @ concat (map (pageObjects r) ps)"
       "dom (xref acc') = dom (xref ?acc1) \<union> set (concat (map (\<lambda>p. [page_id p, contentId p]) ps))"
    by blast
  have "emitPages imgs r (p # ps) acc = Inr acc'" using a(1) x by simp
  moreover have "buffer acc' = buffer acc @ concat (map (pageObjects r) (p # ps))"
    using a(2) by (simp add: addObject_fields pageObjects_def)
  moreover have "dom (xref acc') = dom (xref acc) \<union> set (concat (map (\<lambda>p. [page_id p, contentId p]) (p # ps)))"
    unfolding a(3) addObject_fields by auto
  ultimately show ?case by blast
qed

lemma xrefLines_total:
  "\<forall>i \<in> set ids. i \<in> dom xr \<Longrightarrow> \<exists>ls. xrefLines xr ids = Inr ls"
proof (induction ids)
  case Nil
  then show ?case by simp
next
  case (Cons i ids)
  then obtain ls off where "xrefLines xr ids = Inr ls" "xr i = Some off" by auto
  then show ?case by simp
qed

lemma serialize_imageless:
  assumes "imageless s1" "allocOK s1"
  shows "\<exists>out rest. serialize h s1 = (s1\<lparr>objectCounter := objectCounter s1 + 2\<rparr>, Inr out)
     \<and> out = toBytes (buffer0 @ fullObject (objectCounter s1) (catalogContent (objectCounter s1 + 1))
          @ fullObject (objectCounter s1 + 1) (pagesRootContent (pages s1))
          @ concat (map (pageObjects (objectCounter s1 + 1)) (pages s1)) @ rest)"
proof -
  define c where "c = objectCounter s1"
  define r where "r = c + 1"
  define s3 where "s3 = s1\<lparr>objectCounter := c + 2\<rparr>"
  define ids where "ids = [1..<objectCounter s3]"
  define acc2 where "acc2 = addObject r (pagesRootContent (pages s3))
     (addObject c (catalogContent r) \<lparr>buffer = buffer0, currentOffset = length buffer0, xref = [0 \<mapsto> 0]\<rparr>)"
  have ser: "serialize h s1 =
    (case emitObjects h c r s3 of
       Inl e \<Rightarrow> (s3, Inl e)
     | Inr acc \<Rightarrow>
        (case xrefLines (xref acc) ids of
           Inl e \<Rightarrow> (s3, Inl e)
         | Inr ls \<Rightarrow> (s3, Inr (toBytes (buffer acc @ xrefHead (objectCounter s3) @ ls
                                  @ trailer (objectCounter s3) c (currentOffset acc))))))"
    by (simp add: serialize_def allocateRoots_def getNextId_def c_def r_def s3_def ids_def Let_def
      split: sum.splits)
  have im: "images s3 = []" "\<forall>p \<in> set (pages s3). res_images p = []" "pages s3 = pages s1"
    using assms(1) by (simp_all add: imageless_def s3_def)
  from emitPages_imageless [OF im(2), of "images s3" r acc2] obtain acc3 where
    a3: "emitPages (images s3) r (pages s3) acc2 = Inr acc3"
      "buffer acc3 = buffer acc2 @ concat (map (pageObjects r) (pages s3))"
      "dom (xref acc3) = dom (xref acc2) \<union> set (concat (map (\<lambda>p. [page_id p, contentId p]) (pages s3)))"
    by blast
  have eo: "emitObjects h c r s3 = Inr acc3"
    using a3(1) by (simp add: emitObjects_def acc2_def [symmetric] im(1))
  have b2: "buffer acc2 = buffer0 @ fullObject c (catalogContent r) @ fullObject r (pagesRootContent (pages s3))"
    and d2: "dom (xref acc2) = {0, c, r}"
    by (auto simp add: acc2_def addObject_fields)
  have st: "set (pageIds s1) \<union> set (imageIds s1) = {1..<c}" and c1: "1 \<le> c"
    using assms(2) by (simp_all add: allocOK_def c_def)
  have "imageIds s1 = []" using assms(1) by (simp add: imageless_def imageIds_def)
  then have pi: "set (pageIds s1) = {1..<c}" using st by simp
  have "dom (xref acc3) = {0, c, r} \<union> {1..<c}"
    unfolding a3(3) d2 im(3) pi [symmetric] by (simp add: pageIds_def)
  then have "\<forall>i \<in> set ids. i \<in> dom (xref acc3)"
    by (auto simp: ids_def s3_def r_def)
  from xrefLines_total [OF this] obtain ls where ls: "xrefLines (xref acc3) ids = Inr ls" by blast
  have "serialize h s1 = (s3, Inr (toBytes (buffer acc3 @ xrefHead (objectCounter s3) @ ls
                                  @ trailer (objectCounter s3) c (currentOffset acc3))))"
    by (simp add: ser eo ls)
  then show ?thesis
    unfolding a3(2) b2 im(3) r_def c_def s3_def
    by (intro exI) (rule conjI, assumption, simp)
qed

text \<open>
  Claim C3. After the constructor and \<open>n\<close> calls of \<open>addPage\<close>, whatever the
  configuration, \<open>buildPdf\<close> returns bytes: the header line, the catalog, the page-tree
  root and then, for each of the \<open>1 + n\<close> pages, its page object and its content
  stream; the page-tree root reads \<open>/Count\<close> followed by the decimal of \<open>1 + n\<close>.
\<close>

theorem page_count_serialized:
  "\<exists>s' out rest kids.
      buildPdf h (pagesOnly h cfg n) = Some (s', Inr out)
      \<and> length (pages s') = 1 + n
      \<and> out = toBytes (buffer0 @ fullObject (2 * n + 3) (catalogContent (2 * n + 4))
                 @ fullObject (2 * n + 4) (pagesRootContent (pages s'))
                 @ concat (map (pageObjects (2 * n + 4)) (pages s')) @ rest)
      \<and> pagesRootContent (pages s') =
           js ''<< /Type /Pages /Kids ['' @ kids @ js ''] /Count '' @ showNat (1 + n) @ js '' >>''"
proof -
  define d where "d = pagesOnly h cfg n"
  have pr: "length (pages d) = 1 + n" "objectCounter d = 2 * n + 3" "imageless d"
    using pagesOnly_props [of h cfg n] by (simp_all add: d_def)
  have ok: "allocOK d" unfolding d_def pagesOnly_def
    by (rule allocOK_runCommands) (rule allocOK_constructor)
  from applyHeaderFooter_total [of h d] obtain s1 where
    r: "applyHeaderFooter h d = Some (s1, None)" and f: "frame s1 = frame d" by metis
  note ids = frame_ids [OF f]
  have ok1: "allocOK s1" by (rule allocOK_cong [OF ok ids])
  have im1: "imageless s1" by (rule frame_imageless [OF f pr(3)])
  have l1: "length (pages s1) = 1 + n" using frame_length [OF f] pr(1) by simp
  have c1: "objectCounter s1 = 2 * n + 3" using ids(1) pr(2) by simp
  from serialize_imageless [OF im1 ok1, of h] obtain out rest where
    s: "serialize h s1 = (s1\<lparr>objectCounter := objectCounter s1 + 2\<rparr>, Inr out)"
    and o: "out = toBytes (buffer0 @ fullObject (objectCounter s1) (catalogContent (objectCounter s1 + 1))
          @ fullObject (objectCounter s1 + 1) (pagesRootContent (pages s1))
          @ concat (map (pageObjects (objectCounter s1 + 1)) (pages s1)) @ rest)"
    by blast
  define s' where "s' = s1\<lparr>objectCounter := objectCounter s1 + 2\<rparr>"
  define kids where "kids = join (js '' '') (map (\<lambda>p. showNat (page_id p) @ js '' 0 R'') (pages s'))"
  have b: "buildPdf h d = Some (s', Inr out)" by (simp add: buildPdf_def r s s'_def)
  have p: "pages s' = pages s1" by (simp add: s'_def)
  have o': "out = toBytes (buffer0 @ fullObject (2 * n + 3) (catalogContent (2 * n + 4))
                 @ fullObject (2 * n + 4) (pagesRootContent (pages s'))
                 @ concat (map (pageObjects (2 * n + 4)) (pages s')) @ rest)"
    using o unfolding c1 p by (simp add: add.commute)
  have k: "pagesRootContent (pages s') =
           js ''<< /Type /Pages /Kids ['' @ kids @ js ''] /Count '' @ showNat (1 + n) @ js '' >>''"
    by (simp add: pagesRootContent_def kids_def p l1)
  show ?thesis
    unfolding d_def [symmetric]
    by (rule exI [of _ s'], rule exI [of _ out], rule exI [of _ rest], rule exI [of _ kids])
       (use b o' k l1 p in simp)
qed

theorem page_count_serialized_witness:
  "pagesOnly sampleHost emptyConfig 0 = constructor emptyConfig
   \<and> buildPdf sampleHost (constructor emptyConfig)
       = Some ((constructor emptyConfig)\<lparr>objectCounter := 5\<rparr>, Inr emptyDocumentOutput)
   \<and> (\<exists>rest kids.
         emptyDocumentOutput = toBytes (buffer0 @ fullObject 3 (catalogContent 4)
            @ fullObject 4 (pagesRootContent (pages (constructor emptyConfig)))
            @ concat (map (pageObjects 4) (pages (constructor emptyConfig))) @ rest)
         \<and> pagesRootContent (pages (constructor emptyConfig)) =
             js ''<< /Type /Pages /Kids ['' @ kids @ js ''] /Count '' @ showNat 1 @ js '' >>'')"
proof -
  have z: "pagesOnly sampleHost emptyConfig 0 = constructor emptyConfig" by (rule pagesOnly_0)
  from page_count_serialized [of sampleHost emptyConfig 0] obtain s' out rest kids where
    b: "buildPdf sampleHost (constructor emptyConfig) = Some (s', Inr out)"
    and o: "out = toBytes (buffer0 @ fullObject 3 (catalogContent 4)
                 @ fullObject 4 (pagesRootContent (pages s'))
                 @ concat (map (pageObjects 4) (pages s')) @ rest)"
    and k: "pagesRootContent (pages s') =
           js ''<< /Type /Pages /Kids ['' @ kids @ js ''] /Count '' @ showNat 1 @ js '' >>''"
    unfolding z by auto
  have s': "s' = (constructor emptyConfig)\<lparr>objectCounter := 5\<rparr>" and out: "out = emptyDocumentOutput"
    using b build_empty by simp_all
  have p: "pages s' = pages (constructor emptyConfig)" by (simp add: s')
  show ?thesis using z build_empty o k unfolding out p by blast
qed

section \<open>Fonts outside the table\<close>

lemma arial_key: "fontKeyOf sampleHost (fontOf arialText) (styleOf arialText) = js ''arial''"
  by (simp add: fontKeyOf_def fontOf_def styleOf_def arialText_def plainText_def sampleHost_def
    asciiLower_def styleName_def endsWith_def js_def)

lemma arial_name: "pdfFontNameOf (js ''arial'') = js ''Helvetica''"
  by (simp add: pdfFontNameOf_def standardFonts_def js_def)

lemma arial_resource: "fontResourceNameOf (js ''arial'') = js ''F0''"
  by (simp add: fontResourceNameOf_def standardFonts_def showNat_0 js_def)

lemma arial_content:
  "textContent sampleHost (js ''x'') 20 20 arialText
     = js ''BT\<newline>/F0 12 Tf\<newline>0 0 0 rg\<newline>20 821.89 Td\<newline>(x) Tj\<newline>ET\<newline>''"
proof -
  have o: "sizeOf arialText = 12" "alignOf arialText = AlignLeft" "colorOf arialText = js ''#000000''"
    by (simp_all add: sizeOf_def alignOf_def colorOf_def arialText_def plainText_def)
  note c = black
  have e: "escapeText (js ''x'') = js ''x''" by (simp add: escapeText_def replaceChar_def js_def)
  show ?thesis
    unfolding textContent_def Let_def arial_key arial_resource o c e
    by (simp add: sample_numbers) (simp add: js_def nl_def)
qed

lemma arial_document:
  "arialDocument = \<lparr>config = emptyConfig,
      pages = [\<lparr>page_id = 1, contentId = 2,
        content = [js ''BT\<newline>/F0 12 Tf\<newline>0 0 0 rg\<newline>20 821.89 Td\<newline>(x) Tj\<newline>ET\<newline>''],
        res_fonts = [js ''F0''], res_images = []\<rparr>],
      currentPageIndex = 0, objectCounter = 3, images = [], headerHeight = 0, footerHeight = 0,
      isApplyingHeaderFooter = False\<rparr>"
proof -
  have s: "sizeOf arialText = 12" by (simp add: sizeOf_def arialText_def plainText_def)
  have "arialDocument = fst (addText sampleHost (js ''x'') 20 20 arialText (constructor emptyConfig))"
    by (simp add: arialDocument_def runCommands_def runCommand_def)
  also have "\<dots> = (constructor emptyConfig)\<lparr>pages := [\<lparr>page_id = 1, contentId = 2,
      content = [textContent sampleHost (js ''x'') 20 20 arialText],
      res_fonts = [js ''F0''], res_images = []\<rparr>]\<rparr>"
    by (simp add: addText_def Let_def s double_small_values PAGE_HEIGHT_value double_PAGE_HEIGHT_value
      MAX_HEADER_HEIGHT_def MAX_FOOTER_HEIGHT_def
      constructor_def initial_def emptyConfig_def
      orZero_def addPage_eq newPage_def arrayAt_def setAdd_def arial_key arial_resource)
  finally show ?thesis
    by (simp add: arial_content constructor_def initial_def addPage_eq newPage_def orZero_def
      emptyConfig_def MAX_HEADER_HEIGHT_def MAX_FOOTER_HEIGHT_def numeral_3_eq_3)
qed

lemma arial_fontRes:
  "fontRes [js ''F0''] = js ''/Font << /F0 << /Type /Font /Subtype /Type1 /BaseFont /undefined >> >>''"
  by (simp add: fontRes_def fontEntry_def fontNameOfResource_def parseInt_def isDigit_def arrayAt_def
    js_def)

lemma pageObjects_fontRes:
  "\<exists>pre post. pageObjects r p = pre @ fontRes (res_fonts p) @ post"
proof -
  have "pageObjects r p =
      (objHeader (page_id p) @ js ''<< /Type /Page /Parent '' @ showNat r
        @ js '' 0 R /MediaBox [0 0 595.28 841.89] /Contents '' @ showNat (contentId p)
        @ js '' 0 R /Resources '' @ js ''<< '')
      @ fontRes (res_fonts p)
      @ (js '' '' @ js '' >>'' @ js '' >>'' @ objFooter @ fullObject (contentId p) (streamObject p))"
    by (simp add: pageObjects_def fullObject_def pageContent_def)
  then show ?thesis by blast
qed

text \<open>
  Claim C5, at a font family outside the table (\<open>Arial\<close>): \<open>addText\<close> resolves the
  key to \<open>Helvetica\<close> and registers the resource name \<open>F0\<close> on the page, and the bytes
  that \<open>buildPdf\<close> returns hold, as the font dictionary of that page, the base font
  \<open>undefined\<close> for \<open>F0\<close>, not \<open>Helvetica\<close>.
\<close>

theorem unmapped_font_serialized_undefined:
  "pdfFontNameOf (fontKeyOf sampleHost (fontOf arialText) (styleOf arialText)) = js ''Helvetica''
   \<and> map res_fonts (pages arialDocument) = [[js ''F0'']]
   \<and> map content (pages arialDocument) =
       [[js ''BT\<newline>/F0 12 Tf\<newline>0 0 0 rg\<newline>20 821.89 Td\<newline>(x) Tj\<newline>ET\<newline>'']]
   \<and> (\<exists>s' pre post. buildPdf sampleHost arialDocument = Some (s', Inr (toBytes
         (pre @ js ''/Font << /F0 << /Type /Font /Subtype /Type1 /BaseFont /undefined >> >>'' @ post))))"
proof -
  have d: "arialDocument = runCommands sampleHost [AddText (js ''x'') 20 20 arialText] (constructor emptyConfig)"
    by (rule arialDocument_def)
  have ok: "allocOK arialDocument"
    unfolding d by (rule allocOK_runCommands) (rule allocOK_constructor)
  have im: "imageless arialDocument" by (simp add: arial_document imageless_def)
  from applyHeaderFooter_total [of sampleHost arialDocument] obtain s1 where
    r: "applyHeaderFooter sampleHost arialDocument = Some (s1, None)"
    and f: "frame s1 = frame arialDocument" by metis
  have ok1: "allocOK s1" by (rule allocOK_cong [OF ok frame_ids [OF f]])
  have im1: "imageless s1" by (rule frame_imageless [OF f im])
  have c: "config arialDocument = emptyConfig" "\<not> isApplyingHeaderFooter arialDocument"
    by (simp_all add: arial_document)
  have "applyHeaderFooter sampleHost arialDocument = Some (arialDocument, None)"
    by (rule pass_unconfigured [OF c])
  then have s1: "s1 = arialDocument" using r by simp
  from serialize_imageless [OF im1 ok1, of sampleHost] obtain out rest where
    s: "serialize sampleHost s1 = (s1\<lparr>objectCounter := objectCounter s1 + 2\<rparr>, Inr out)"
    and o: "out = toBytes (buffer0 @ fullObject (objectCounter s1) (catalogContent (objectCounter s1 + 1))
          @ fullObject (objectCounter s1 + 1) (pagesRootContent (pages s1))
          @ concat (map (pageObjects (objectCounter s1 + 1)) (pages s1)) @ rest)"
    by blast
  obtain p where p: "pages s1 = [p]" "res_fonts p = [js ''F0'']"
    unfolding s1 by (simp add: arial_document)
  from pageObjects_fontRes [of "objectCounter s1 + 1" p] obtain pre post where
    pp: "pageObjects (objectCounter s1 + 1) p = pre @ fontRes [js ''F0''] @ post"
    unfolding p(2) by blast
  define pre' where "pre' = buffer0 @ fullObject (objectCounter s1) (catalogContent (objectCounter s1 + 1))
          @ fullObject (objectCounter s1 + 1) (pagesRootContent (pages s1)) @ pre"
  have "out = toBytes (pre' @ js ''/Font << /F0 << /Type /Font /Subtype /Type1 /BaseFont /undefined >> >>''
            @ (post @ rest))"
    unfolding o p(1) pre'_def list.map concat.simps pp arial_fontRes by simp
  moreover have "buildPdf sampleHost arialDocument = Some (s1\<lparr>objectCounter := objectCounter s1 + 2\<rparr>, Inr out)"
    by (simp add: buildPdf_def r s)
  ultimately have b: "\<exists>s' pre post. buildPdf sampleHost arialDocument = Some (s', Inr (toBytes
         (pre @ js ''/Font << /F0 << /Type /Font /Subtype /Type1 /BaseFont /undefined >> >>'' @ post)))"
    by blast
  have a: "pdfFontNameOf (fontKeyOf sampleHost (fontOf arialText) (styleOf arialText)) = js ''Helvetica''"
    by (simp add: arial_key arial_name)
  have m: "map res_fonts (pages arialDocument) = [[js ''F0'']]"
    "map content (pages arialDocument) =
       [[js ''BT\<newline>/F0 12 Tf\<newline>0 0 0 rg\<newline>20 821.89 Td\<newline>(x) Tj\<newline>ET\<newline>'']]"
    by (simp_all add: arial_document)
  show ?thesis using a m b by blast
qed

section \<open>Callbacks that add pages\<close>

lemma output_pages:
  "outputContents (Suc fuel) h cbs s =
     map_option (\<lambda>wr. map content (pages (fst (fst wr))))
       (applyHeaderFooterWith fuel h cbs (reenter fuel h cbs) (s, 0))"
proof -
  have r: "(\<lambda>w'. map_option thrown (getOutputWith fuel h cbs w')) = reenter fuel h cbs"
    by (rule ext) (simp add: reenter_def)
  show ?thesis
    unfolding outputContents_def getOutputWith.simps buildPdfWith_def r
    by (simp add: serialize_state split_beta split: option.splits)
qed

text \<open>The pass over a document of one empty page, with the header callback that adds a
  page when called for page 1: the footer of page 1 lands on the new page.\<close>

lemma pass_adding_header:
  assumes "config s = cfg" "onFooter cfg = None" "pages s = [pg]" "content pg = []"
    "defaultFooter cfg = dflt"
  shows "map_option (\<lambda>wr. map content (pages (fst (fst wr))))
           (applyHeaderFooterWith 3 sampleHost addingHeader out (s, 0))
         = Some (case dflt of
              None \<Rightarrow> [[], []]
            | Some d \<Rightarrow> [[], (if footerText d 1 \<noteq> [] then [footerFragment sampleHost d 1] else [])
                              @ (if footerText d 2 \<noteq> [] then [footerFragment sampleHost d 2] else [])])"
  using assms
  by (cases dflt)
     (simp_all add: applyHeaderFooterWith_def numeral_3_eq_3 numeral_2_eq_2 hfPageWith_def applyHeaderWith_def
       applyFooterWith_def callScript_def addingHeader_def pageAdder_def setPage_def Let_def
       applyFooter_def thrown_def addText_def arrayAt_def footerFragment_def newPage_def placing_def)

lemma output_adding_header:
  assumes "onFooter cfg = None"
  shows "outputContents 4 sampleHost addingHeader (constructor cfg)
         = Some (case defaultFooter cfg of
              None \<Rightarrow> [[], []]
            | Some d \<Rightarrow> [[], (if footerText d 1 \<noteq> [] then [footerFragment sampleHost d 1] else [])
                              @ (if footerText d 2 \<noteq> [] then [footerFragment sampleHost d 2] else [])])"
proof -
  have c: "config (constructor cfg) = cfg" "pages (constructor cfg) = [newPage 1]"
    by (simp_all add: constructor_def initial_def addPage_eq)
  have n: "content (newPage 1) = []" by (simp add: newPage_def)
  have "(4::nat) = Suc 3" by simp
  then show ?thesis
    by (simp only: output_pages pass_adding_header [OF c(1) assms c(2) n refl])
qed

text \<open>
  Claim C4 as stated fails for a configuration whose header callback calls \<open>addPage\<close>:
  the document has one page before the pass and two after it.
\<close>

theorem pass_never_paginates_counterexample:
  "length (pages (constructor emptyConfig)) = 1
   \<and> outputContents 4 sampleHost addingHeader (constructor emptyConfig) = Some [[], []]"
proof -
  have "onFooter emptyConfig = None" "defaultFooter emptyConfig = None"
    by (simp_all add: emptyConfig_def)
  then show ?thesis using output_adding_header [of emptyConfig]
    by (simp add: constructor_def initial_def)
qed

theorem pass_never_paginates_witness:
  "isApplyingHeaderFooter (guarded (constructor tallBandsConfig))
   \<and> footerHeight (guarded (constructor tallBandsConfig)) = 200
   \<and> double (820 + sizeOf (hfOptions AlignCenter (js ''#000000'')))
        > double (PAGE_HEIGHT - footerHeight (guarded (constructor tallBandsConfig)))
   \<and> length (pages (fst (addText sampleHost (js ''Page 1'') 20 820 (hfOptions AlignCenter (js ''#000000''))
         (guarded (constructor tallBandsConfig))))) = 1
   \<and> length (pages (fst (addImage sampleHost (js ''abc'') 20 820 squareImage
         (guarded (constructor tallBandsConfig))))) = 1
   \<and> placesOnly (headerScript titleHeader) \<and> placesOnly (footerScript titleHeader)
   \<and> length (pages (constructor tallBandsConfig)) < 2
   \<and> (\<exists>s' m'. applyHeaderFooterWith 2 sampleHost titleHeader (reenter 1 sampleHost titleHeader)
           (constructor tallBandsConfig, 0) = Some ((s', m'), None)
         \<and> length (pages s') = 1 \<and> \<not> isApplyingHeaderFooter s')"
proof -
  have a: "isApplyingHeaderFooter (guarded (constructor tallBandsConfig))"
    and b: "footerHeight (guarded (constructor tallBandsConfig)) = 200"
    and l: "length (pages (guarded (constructor tallBandsConfig))) = 1"
    by (simp_all add: guarded_def)
  have c: "double (820 + sizeOf (hfOptions AlignCenter (js ''#000000'')))
        > double (PAGE_HEIGHT - footerHeight (guarded (constructor tallBandsConfig)))"
    by (simp add: b sizeOf_def hfOptions_def double_small_values double_page_values)
  have fu: "length (pages (constructor tallBandsConfig)) < 2" by simp
  show ?thesis
    using pass_never_paginates [of "guarded (constructor tallBandsConfig)" sampleHost "js ''Page 1''" 20 820
        "hfOptions AlignCenter (js ''#000000'')" "js ''abc''" squareImage titleHeader 2
        "reenter 1 sampleHost titleHeader" 0]
      pass_never_paginates [of "constructor tallBandsConfig" sampleHost "js ''Page 1''" 20 820
        "hfOptions AlignCenter (js ''#000000'')" "js ''abc''" squareImage titleHeader 2
        "reenter 1 sampleHost titleHeader" 0]
      a b c l fu titleHeader_places by simp
qed

text \<open>
  Claim C7 as stated fails where a footer callback is configured beside the default
  footer: the callback is called instead, and the page receives no \<open>Page 1\<close>. It fails
  too where the header callback calls \<open>addPage\<close>: the current page is then the new one, so
  that page 1 receives no footer and page 2 receives both \<open>Page 1\<close> and \<open>Page 2\<close>.
\<close>

theorem footer_page_numbers_counterexample:
  "defaultFooter (config (constructor silentFooterConfig)) = Some pageNumberFooter
   \<and> df_showPageNumbers pageNumberFooter = Some True \<and> df_text pageNumberFooter = None
   \<and> passContents sampleHost (constructor silentFooterConfig) = Some [[]]
   \<and> defaultFooter (config (constructor pageNumbersConfig)) = Some pageNumberFooter
   \<and> onFooter (config (constructor pageNumbersConfig)) = None
   \<and> footerScript addingHeader = None
   \<and> footerText pageNumberFooter 1 = js ''Page 1''
   \<and> footerText pageNumberFooter 2 = js ''Page 2''
   \<and> outputContents 4 sampleHost addingHeader (constructor pageNumbersConfig)
        = Some [[], [footerFragment sampleHost pageNumberFooter 1, footerFragment sampleHost pageNumberFooter 2]]"
proof -
  have a: "passContents sampleHost (constructor silentFooterConfig) = Some [[]]"
    by (simp add: passContents_def applyHeaderFooter_def hfLoop.simps hfPage_def constructor_def initial_def
      silentFooterConfig_def emptyConfig_def applyHeader_def applyFooter_def setPage_def orZero_def
      pageNumberFooter_def newPage_def)
  have t: "footerText pageNumberFooter 1 = js ''Page 1''" "footerText pageNumberFooter 2 = js ''Page 2''"
    by (simp_all add: footerText_def pageNumberFooter_def showNat.simps digitChar_def js_def)
  have f: "onFooter pageNumbersConfig = None" "defaultFooter pageNumbersConfig = Some pageNumberFooter"
    by (simp_all add: pageNumbersConfig_def emptyConfig_def)
  have n: "footerText pageNumberFooter 1 \<noteq> []" "footerText pageNumberFooter 2 \<noteq> []"
    unfolding t by (simp_all add: js_def)
  have b: "outputContents 4 sampleHost addingHeader (constructor pageNumbersConfig)
        = Some [[], [footerFragment sampleHost pageNumberFooter 1, footerFragment sampleHost pageNumberFooter 2]]"
    using output_adding_header [OF f(1)] f(2) n by simp
  have c: "config (constructor cfg) = cfg" for cfg
    by (simp add: constructor_def initial_def)
  show ?thesis using a b t f
    by (simp add: c silentFooterConfig_def emptyConfig_def pageNumberFooter_def addingHeader_def)
qed

text \<open>
  Claim C10 as stated fails where a footer callback is configured beside the default
  footer: the default footer is not placed at all. It fails too where the header callback
  calls \<open>addPage\<close>: page 1 receives no footer and page 2 receives those of both pages.
\<close>

theorem footer_numbers_default_on_counterexample:
  "defaultFooter (config (constructor silentReportConfig)) = Some reportFooter
   \<and> df_showPageNumbers reportFooter = None \<and> df_text reportFooter = Some (js ''Report'')
   \<and> passContents sampleHost (constructor silentReportConfig) = Some [[]]
   \<and> defaultFooter (config (constructor reportConfig)) = Some reportFooter
   \<and> onFooter (config (constructor reportConfig)) = None
   \<and> footerScript addingHeader = None
   \<and> footerText reportFooter 1 = js ''Report - Page 1''
   \<and> footerText reportFooter 2 = js ''Report - Page 2''
   \<and> outputContents 4 sampleHost addingHeader (constructor reportConfig)
        = Some [[], [footerFragment sampleHost reportFooter 1, footerFragment sampleHost reportFooter 2]]"
proof -
  have a: "passContents sampleHost (constructor silentReportConfig) = Some [[]]"
    by (simp add: passContents_def applyHeaderFooter_def hfLoop.simps hfPage_def constructor_def initial_def
      silentReportConfig_def emptyConfig_def applyHeader_def applyFooter_def setPage_def orZero_def
      reportFooter_def newPage_def)
  have t: "footerText reportFooter 1 = js ''Report - Page 1''"
    "footerText reportFooter 2 = js ''Report - Page 2''"
    by (simp_all add: footerText_def reportFooter_def showNat.simps digitChar_def js_def)
  have f: "onFooter reportConfig = None" "defaultFooter reportConfig = Some reportFooter"
    by (simp_all add: reportConfig_def emptyConfig_def)
  have n: "footerText reportFooter 1 \<noteq> []" "footerText reportFooter 2 \<noteq> []"
    unfolding t by (simp_all add: js_def)
  have b: "outputContents 4 sampleHost addingHeader (constructor reportConfig)
        = Some [[], [footerFragment sampleHost reportFooter 1, footerFragment sampleHost reportFooter 2]]"
    using output_adding_header [OF f(1)] f(2) n by simp
  have c: "config (constructor cfg) = cfg" for cfg
    by (simp add: constructor_def initial_def)
  show ?thesis using a b t f
    by (simp add: c silentReportConfig_def emptyConfig_def reportFooter_def addingHeader_def)
qed


end
